theory Spec2Isabelle
  imports Main "HOL-Library.Char_ord" "HOL-Library.List_Lexorder"
begin

section \<open>Characters and text\<close>

text \<open>
  A text is a list of characters; a character is a code point below 256.  The
  classes the patterns use are the ones Python's \<^verbatim>\<open>re\<close> module gives them under
  \<^verbatim>\<open>re.UNICODE\<close>, restricted to that range.
\<close>

definition backslash :: char where "backslash = CHR 0x5C"
definition squote :: char where "squote = CHR 0x27"
definition dquote :: char where "dquote = CHR 0x22"
definition backtick :: char where "backtick = CHR 0x60"
definition newline :: char where "newline = CHR 0x0A"

text \<open>Case folding, for \<^verbatim>\<open>re.IGNORECASE\<close>: below 256 only the letters A-Z and a-z
  fold onto characters that the patterns of this lexer mention.\<close>

definition lower :: "char \<Rightarrow> char" where
  "lower c = (case map_of (zip ''ABCDEFGHIJKLMNOPQRSTUVWXYZ'' ''abcdefghijklmnopqrstuvwxyz'') c of
                None \<Rightarrow> c | Some d \<Rightarrow> d)"

definition upper :: "char \<Rightarrow> char" where
  "upper c = (case map_of (zip ''abcdefghijklmnopqrstuvwxyz'' ''ABCDEFGHIJKLMNOPQRSTUVWXYZ'') c of
                None \<Rightarrow> c | Some d \<Rightarrow> d)"

text \<open>\<^verbatim>\<open>\s\<close> and \<^verbatim>\<open>str.strip()\<close>: the characters for which \<^verbatim>\<open>str.isspace\<close> holds
  (code points 9 to 13, 28 to 32, 133 and 160).\<close>

definition is_space :: "char \<Rightarrow> bool" where
  "is_space c = (c \<in> set [CHR 0x09, CHR 0x0A, CHR 0x0B, CHR 0x0C, CHR 0x0D, CHR 0x1C, CHR 0x1D,
                          CHR 0x1E, CHR 0x1F, CHR 0x20, CHR 0x85, CHR 0xA0])"

text \<open>\<^verbatim>\<open>\w\<close>: the underscore and the alphanumeric characters (below 256 these are the
  digits, the letters, code points 170, 178, 179, 181, 185, 186, 188 to 190, and 192 to
  255 without 215 and 247).\<close>

definition is_word :: "char \<Rightarrow> bool" where
  "is_word c = ((CHR ''0'' \<le> c \<and> c \<le> CHR ''9'') \<or> (CHR ''A'' \<le> c \<and> c \<le> CHR ''Z'')
     \<or> (CHR ''a'' \<le> c \<and> c \<le> CHR ''z'') \<or> c = CHR ''_''
     \<or> c \<in> set [CHR 0xAA, CHR 0xB2, CHR 0xB3, CHR 0xB5, CHR 0xB9, CHR 0xBA, CHR 0xBC, CHR 0xBD, CHR 0xBE]
     \<or> (CHR 0xC0 \<le> c \<and> c \<noteq> CHR 0xD7 \<and> c \<noteq> CHR 0xF7))"

section \<open>Regular expressions\<close>

text \<open>
  The patterns of the lexer, as syntax trees.  A class is a list of ranges with a
  negation flag; a group carries its number.
\<close>

datatype regex =
    Eps
  | Lit char
  | Dot
  | Cls bool "(char \<times> char) list"
  | Space
  | Bol
  | Wordb
  | Seq regex regex
  | Alt regex regex
  | Star regex
  | Plus regex
  | Opt regex
  | Group nat regex

text \<open>
  A matcher state: the offset, the character before it (none at offset 0), the text
  from the offset on, and the spans of the groups closed so far, the latest first.
\<close>

type_synonym captures = "(nat \<times> nat \<times> nat) list"
type_synonym mstate = "nat \<times> char option \<times> string \<times> captures"

definition remaining :: "mstate \<Rightarrow> nat" where
  "remaining st = (case st of (p, pv, cs, g) \<Rightarrow> length cs)"

text \<open>One character that satisfies a test.\<close>

fun one :: "(char \<Rightarrow> bool) \<Rightarrow> mstate \<Rightarrow> mstate list" where
  "one P (p, pv, [], g) = []"
| "one P (p, pv, c # cs, g) = (if P c then [(Suc p, Some c, cs, g)] else [])"

definition in_class :: "char \<Rightarrow> (char \<times> char) list \<Rightarrow> bool" where
  "in_class c rs = list_ex (\<lambda>(lo, hi). lo \<le> c \<and> c \<le> hi) rs"

definition cls_ok :: "bool \<Rightarrow> (char \<times> char) list \<Rightarrow> char \<Rightarrow> bool" where
  "cls_ok neg rs c = (neg \<noteq> (in_class (lower c) rs \<or> in_class (upper c) rs))"

definition word_before :: "char option \<Rightarrow> bool" where
  "word_before pv = (case pv of None \<Rightarrow> False | Some c \<Rightarrow> is_word c)"

definition word_after :: "string \<Rightarrow> bool" where
  "word_after cs = (case cs of [] \<Rightarrow> False | c # _ \<Rightarrow> is_word c)"

text \<open>
  Greedy repetition with backtracking: every way to go on after one more round of the
  body comes before stopping here.  A round that consumes nothing is not repeated.
\<close>

function star_iter :: "(mstate \<Rightarrow> mstate list) \<Rightarrow> mstate \<Rightarrow> mstate list" where
  "star_iter f st =
     concat (map (star_iter f) (filter (\<lambda>st'. remaining st' < remaining st) (f st))) @ [st]"
  by pat_completeness auto
termination
  by (relation "measure (\<lambda>(f, st). remaining st)") auto

declare star_iter.simps [simp del]

text \<open>
  All matches of a pattern from a state, in the order in which a backtracking matcher
  finds them: Python's \<^verbatim>\<open>match\<close> returns the first.
\<close>

primrec mt :: "regex \<Rightarrow> mstate \<Rightarrow> mstate list" where
  "mt Eps = (\<lambda>st. [st])"
| "mt (Lit x) = one (\<lambda>c. lower c = lower x)"
| "mt Dot = one (\<lambda>c. c \<noteq> newline)"
| "mt (Cls neg rs) = one (cls_ok neg rs)"
| "mt Space = one is_space"
| "mt Bol = (\<lambda>(p, pv, cs, g). if pv = None \<or> pv = Some newline then [(p, pv, cs, g)] else [])"
| "mt Wordb = (\<lambda>(p, pv, cs, g). if word_before pv \<noteq> word_after cs then [(p, pv, cs, g)] else [])"
| "mt (Seq a b) = (\<lambda>st. concat (map (mt b) (mt a st)))"
| "mt (Alt a b) = (\<lambda>st. mt a st @ mt b st)"
| "mt (Star r) = star_iter (mt r)"
| "mt (Plus r) = (\<lambda>st. concat (map (star_iter (mt r)) (mt r st)))"
| "mt (Opt r) = (\<lambda>st. mt r st @ [st])"
| "mt (Group i r) = (\<lambda>(p, pv, cs, g). map (\<lambda>(p', pv', cs', g'). (p', pv', cs', (i, p, p') # g')) (mt r (p, pv, cs, g)))"

text \<open>A sequence of patterns, and a pattern repeated a fixed number of times.\<close>

fun seq :: "regex list \<Rightarrow> regex" where
  "seq [] = Eps"
| "seq [r] = r"
| "seq (r # rs) = Seq r (seq rs)"

definition times :: "nat \<Rightarrow> regex \<Rightarrow> regex" where
  "times n r = seq (replicate n r)"

definition chars :: "string \<Rightarrow> (char \<times> char) list" where
  "chars s = map (\<lambda>c. (c, c)) s"

text \<open>\<^verbatim>\<open>pattern.match(text, pos)\<close>: the end of the first match and its groups.\<close>

definition prev_char :: "string \<Rightarrow> nat \<Rightarrow> char option" where
  "prev_char text pos = (if pos = 0 then None else Some (text ! (pos - 1)))"

definition rexmatch :: "regex \<Rightarrow> string \<Rightarrow> nat \<Rightarrow> (nat \<times> captures) option" where
  "rexmatch r text pos =
     (case mt r (pos, prev_char text pos, drop pos text, []) of
        [] \<Rightarrow> None
      | (e, pv, cs, g) # _ \<Rightarrow> Some (e, g))"

section \<open>Grammar tables\<close>

definition cypher_keywords :: "string list" where
  "cypher_keywords =
    [''AS'', ''ASC'', ''ASCENDING'', ''ASSERT'', ''ASSERT EXISTS'', ''CALL'',
     ''CONSTRAINT ON'', ''CREATE'', ''CREATE UNIQUE'', ''CYPHER'', ''DELETE'', ''DESC'',
     ''DESCENDING'', ''DETACH DELETE'', ''DO'', ''DROP'', ''EXPLAIN'',
     ''FIELDTERMINATOR'', ''FOREACH'', ''FROM'', ''GRAPH'', ''GRAPH AT'', ''GRAPH OF'',
     ''INDEX ON'', ''INTO'', ''IS NODE KEY'', ''IS UNIQUE'', ''LIMIT'', ''LOAD'',
     ''LOAD CSV'', ''MATCH'', ''MERGE'', ''ON CREATE SET'', ''ON MATCH SET'',
     ''OPTIONAL MATCH'', ''ORDER BY'', ''PERSIST'', ''_PRAGMA'', ''PROFILE'',
     ''REMOVE'', ''RELOCATE'', ''RETURN'', ''RETURN DISTINCT'', ''SET'', ''SKIP'',
     ''SNAPSHOT'', ''SOURCE'', ''START'', ''TARGET'', ''UNION'', ''UNION ALL'',
     ''UNWIND'', ''USING INDEX'', ''USING JOIN ON'', ''USING PERIODIC COMMIT'',
     ''USING SCAN'', ''WHERE'', ''WITH'', ''WITH DISTINCT'', ''WITH HEADERS'',
     ''YIELD'', ''>>'']"

definition cypher_pseudo_keywords :: "string list" where
  "cypher_pseudo_keywords =
    [''BEGIN'', ''COMMIT'', ''ROLLBACK'']"

definition cypher_operator_symbols :: "string list" where
  "cypher_operator_symbols =
    [''!='', ''%'', ''*'', ''+'', ''+='', ''-'', ''.'', ''/'', ''<'', ''<='', ''<>'',
     ''='', ''=~'', ''>'', ''>='', ''^'']"

definition cypher_operator_words :: "string list" where
  "cypher_operator_words =
    [''AND'', ''CASE'', ''CONTAINS'', ''DISTINCT'', ''ELSE'', ''END'', ''ENDS WITH'',
     ''IN'', ''IS NOT NULL'', ''IS NULL'', ''NOT'', ''OR'', ''STARTS WITH'', ''THEN'',
     ''WHEN'', ''XOR'']"

definition cypher_constants :: "string list" where
  "cypher_constants =
    [''null'', ''true'', ''false'']"

section \<open>Token types, states and rules\<close>

datatype token_type =
    Keyword | Punctuation | Comment_Single | Comment_Multiline | Operator
  | Name_Label | Name_Function | Name_Variable | Name_Variable_Global | Name_Constant
  | String | Number_Float | Number_Integer | Whitespace | Error

text \<open>
  The states that can be on the stack.  The other entries of the \<^verbatim>\<open>tokens\<close> dictionary
  (\<^verbatim>\<open>strings\<close>, \<^verbatim>\<open>comments\<close>, \<^verbatim>\<open>keywords\<close>, ...) are only ever included in these, so
  they are rule lists here.
\<close>

datatype state = Root | In_Paren | In_Bracket | In_Brace | Multiline_Comments

text \<open>
  The third component of a rule, as a list of stack operations: \<^verbatim>\<open>'#pop'\<close>,
  \<^verbatim>\<open>'#push'\<close>, or the name of a state to push; a tuple is the list of its members, no
  third component the empty list.
\<close>

datatype stack_op = Pop | Push_Same | Push state

datatype action = Tok token_type | Bygroups "token_type list"

type_synonym rule = "regex \<times> action \<times> stack_op list"

section \<open>The pattern rule compiler\<close>

text \<open>
  \<^verbatim>\<open>word_list\<close> and \<^verbatim>\<open>symbol_list\<close> build pattern texts and sort them: Python compares
  the pairs, and as all pairs of one call carry the same token type, that is the order
  of the pattern texts.
\<close>

text \<open>\<^verbatim>\<open>word.replace(" ", r"\s+") + r"\b"\<close>\<close>

definition word_pattern :: "string \<Rightarrow> string" where
  "word_pattern word =
     concat (map (\<lambda>ch. if ch = CHR '' '' then backslash # ''s+'' else [ch]) word) @ [backslash, CHR ''b'']"

text \<open>\<^verbatim>\<open>"".join("\\" + ch for ch in symbol)\<close>\<close>

definition symbol_pattern :: "string \<Rightarrow> string" where
  "symbol_pattern symbol = concat (map (\<lambda>ch. [backslash, ch]) symbol)"

definition word_list :: "string list \<Rightarrow> token_type \<Rightarrow> (string \<times> token_type) list" where
  "word_list words token_type =
     rev (sort_key fst (map (\<lambda>word. (word_pattern word, token_type)) words))"

definition symbol_list :: "string list \<Rightarrow> token_type \<Rightarrow> (string \<times> token_type) list" where
  "symbol_list symbols token_type =
     rev (sort_key fst (map (\<lambda>symbol. (symbol_pattern symbol, token_type)) symbols))"

text \<open>
  \<^verbatim>\<open>re.compile\<close> on the pattern texts those two can build: characters that
  stand for themselves, the escapes \<^verbatim>\<open>\s\<close> and \<^verbatim>\<open>\b\<close>, an escaped punctuation
  character, and \<^verbatim>\<open>+\<close> after any of them.  Any other pattern text is outside this
  fragment and gives \<open>None\<close>.
\<close>

definition special :: "char \<Rightarrow> bool" where
  "special c = (c \<in> set ''.^$*+?{}[]()|'')"

definition escape :: "char \<Rightarrow> regex option" where
  "escape e = (if e = CHR ''s'' then Some Space
     else if e = CHR ''b'' then Some Wordb
     else if (CHR ''0'' \<le> e \<and> e \<le> CHR ''9'') \<or> (CHR ''A'' \<le> e \<and> e \<le> CHR ''Z'')
          \<or> (CHR ''a'' \<le> e \<and> e \<le> CHR ''z'') then None
     else Some (Lit e))"

fun re_parse :: "string \<Rightarrow> regex list option" where
  "re_parse [] = Some []"
| "re_parse [c] = (if c = backslash \<or> special c then None else Some [Lit c])"
| "re_parse (c # d # cs) =
     (if c = backslash then
        (case escape d of
           None \<Rightarrow> None
         | Some a \<Rightarrow>
             (case cs of
                [] \<Rightarrow> Some [a]
              | q # cs' \<Rightarrow>
                  if q = CHR ''+'' then map_option ((#) (Plus a)) (re_parse cs')
                  else map_option ((#) a) (re_parse cs)))
      else if special c then None
      else if d = CHR ''+'' then map_option ((#) (Plus (Lit c))) (re_parse cs)
      else map_option ((#) (Lit c)) (re_parse (d # cs)))"

definition re_compile :: "string \<Rightarrow> regex option" where
  "re_compile p = map_option seq (re_parse p)"

definition compiled :: "(string \<times> token_type) list \<Rightarrow> rule list" where
  "compiled ps = map (\<lambda>(p, token_type). (the (re_compile p), Tok token_type, [])) ps"

section \<open>The lexer's rules\<close>

definition lit :: "string \<Rightarrow> regex" where
  "lit s = seq (map Lit s)"

definition digit :: regex where
  "digit = Cls False [(CHR ''0'', CHR ''9'')]"

definition hexdigit :: regex where
  "hexdigit = Cls False [(CHR ''0'', CHR ''9''), (CHR ''A'', CHR ''F''), (CHR ''a'', CHR ''f'')]"

text \<open>\<^verbatim>\<open>[A-Za-z_][0-9A-Za-z_]*\<close>\<close>

definition plain_name :: regex where
  "plain_name = Seq (Cls False [(CHR ''A'', CHR ''Z''), (CHR ''a'', CHR ''z''), (CHR ''_'', CHR ''_'')])
     (Star (Cls False [(CHR ''0'', CHR ''9''), (CHR ''A'', CHR ''Z''), (CHR ''a'', CHR ''z''),
                       (CHR ''_'', CHR ''_'')]))"

text \<open>\<^verbatim>\<open>[A-Za-z_][0-9A-Za-z_\.]*\<close>\<close>

definition dotted_name :: regex where
  "dotted_name = Seq (Cls False [(CHR ''A'', CHR ''Z''), (CHR ''a'', CHR ''z''), (CHR ''_'', CHR ''_'')])
     (Star (Cls False [(CHR ''0'', CHR ''9''), (CHR ''A'', CHR ''Z''), (CHR ''a'', CHR ''z''),
                       (CHR ''_'', CHR ''_''), (CHR ''.'', CHR ''.'')]))"

text \<open>A name in backticks: a backtick, one or more of (two backticks or a character that
  is no backtick), a backtick.\<close>

definition quoted_name :: regex where
  "quoted_name = seq [Lit backtick,
     Plus (Alt (Seq (Lit backtick) (Lit backtick)) (Cls True [(backtick, backtick)])),
     Lit backtick]"

text \<open>The two string rules: a quote, any number of (a backslash and one of
  \<^verbatim>\<open>bfnrt\<close>, a quote of either kind or a backslash; a backslash, \<^verbatim>\<open>u\<close> and four
  hexadecimal digits; a backslash, \<^verbatim>\<open>U\<close> and eight; a character that is neither a
  backslash nor the quote), the quote.\<close>

definition string_body :: "char \<Rightarrow> char \<Rightarrow> regex" where
  "string_body q1 q2 =
     Alt (Seq (Lit backslash) (Cls False (chars ''bfnrt'' @ [(q1, q1), (q2, q2), (backslash, backslash)])))
    (Alt (seq [Lit backslash, Lit CHR ''u'', times 4 hexdigit])
    (Alt (seq [Lit backslash, Lit CHR ''U'', times 8 hexdigit])
         (Cls True [(backslash, backslash), (q2, q2)])))"

definition strings :: "rule list" where
  "strings =
    [(seq [Lit squote, Star (string_body dquote squote), Lit squote], Tok String, []),
     (seq [Lit dquote, Star (string_body squote dquote), Lit dquote], Tok String, [])]"

text \<open>\<^verbatim>\<open>^.*//.*\n\<close> and \<^verbatim>\<open>/\*\<close>\<close>

definition line_comment :: regex where
  "line_comment = seq [Bol, Star Dot, Lit CHR ''/'', Lit CHR ''/'', Star Dot, Lit newline]"

definition comments :: "rule list" where
  "comments =
    [(line_comment, Tok Comment_Single, []),
     (lit ''/*'', Tok Comment_Multiline, [Push Multiline_Comments])]"

definition multiline_comments :: "rule list" where
  "multiline_comments =
    [(lit ''/*'', Tok Comment_Multiline, [Push Multiline_Comments]),
     (lit ''*/'', Tok Comment_Multiline, [Pop]),
     (Plus (Cls True (chars ''/*'')), Tok Comment_Multiline, []),
     (Cls False (chars ''/*''), Tok Comment_Multiline, [])]"

definition keywords_rules :: "rule list" where
  "keywords_rules = compiled (word_list cypher_keywords Keyword)"

definition pseudo_keywords :: "rule list" where
  "pseudo_keywords = compiled (word_list cypher_pseudo_keywords Keyword)"

definition labels :: "rule list" where
  "labels =
    [(seq [Group 1 (Lit CHR '':''), Group 2 (Star Space), Group 3 quoted_name],
        Bygroups [Punctuation, Whitespace, Name_Label], []),
     (seq [Group 1 (Lit CHR '':''), Group 2 (Star Space), Group 3 plain_name],
        Bygroups [Punctuation, Whitespace, Name_Label], [])]"

definition operators :: "rule list" where
  "operators = compiled (word_list cypher_operator_words Operator)
             @ compiled (symbol_list cypher_operator_symbols Operator)"

definition procedures :: "rule list" where
  "procedures =
    [(seq [Group 1 (lit ''CALL''), Group 2 (Plus Space), Group 3 dotted_name],
        Bygroups [Keyword, Whitespace, Name_Function], [])]"

definition functions_rules :: "rule list" where
  "functions_rules =
    [(seq [Group 1 dotted_name, Group 2 (Star Space), Group 3 (Lit CHR ''('')],
        Bygroups [Name_Function, Whitespace, Punctuation], [Push In_Paren])]"

definition aliases :: "rule list" where
  "aliases =
    [(seq [Group 1 (lit ''AS''), Group 2 (Plus Space), Group 3 quoted_name],
        Bygroups [Keyword, Whitespace, Name_Variable], []),
     (seq [Group 1 (lit ''AS''), Group 2 (Plus Space), Group 3 plain_name],
        Bygroups [Keyword, Whitespace, Name_Variable], [])]"

definition variables :: "rule list" where
  "variables =
    [(quoted_name, Tok Name_Variable, []),
     (plain_name, Tok Name_Variable, [])]"

definition parameters :: "rule list" where
  "parameters =
    [(seq [Group 1 (Lit CHR ''$''), Group 2 quoted_name],
        Bygroups [Punctuation, Name_Variable_Global], []),
     (seq [Group 1 (Lit CHR ''$''), Group 2 plain_name],
        Bygroups [Punctuation, Name_Variable_Global], [])]"

definition constants :: "rule list" where
  "constants = compiled (word_list cypher_constants Name_Constant)"

text \<open>\<^verbatim>\<open>[0-9]*\.[0-9]*(e[+-]?[0-9]+)?\<close>, \<^verbatim>\<open>[0-9]+e[+-]?[0-9]+\<close> and \<^verbatim>\<open>[0-9]+\<close>\<close>

definition numbers :: "rule list" where
  "numbers =
    [(seq [Star digit, Lit CHR ''.'', Star digit,
           Opt (Group 1 (seq [Lit CHR ''e'', Opt (Cls False (chars ''+-'')), Plus digit]))],
        Tok Number_Float, []),
     (seq [Plus digit, Lit CHR ''e'', Opt (Cls False (chars ''+-'')), Plus digit],
        Tok Number_Float, []),
     (Plus digit, Tok Number_Integer, [])]"

definition expressions :: "rule list" where
  "expressions = procedures @ functions_rules @ constants @ aliases @ variables @ parameters @ numbers"

definition whitespace :: "rule list" where
  "whitespace = [(Plus Space, Tok Whitespace, [])]"

text \<open>\<^verbatim>\<open>\)\s*<?-+>?\s*\(\<close>, \<^verbatim>\<open>\)\s*<?-+\s*\[\<close> and \<^verbatim>\<open>\]\s*-+>?\s*\(\<close>\<close>

definition paren_to_paren :: regex where
  "paren_to_paren = seq [Lit CHR '')'', Star Space, Opt (Lit CHR ''<''), Plus (Lit CHR ''-''),
     Opt (Lit CHR ''>''), Star Space, Lit CHR ''('']"

definition paren_to_bracket :: regex where
  "paren_to_bracket = seq [Lit CHR '')'', Star Space, Opt (Lit CHR ''<''), Plus (Lit CHR ''-''),
     Star Space, Lit CHR ''['']"

definition bracket_to_paren :: regex where
  "bracket_to_paren = seq [Lit CHR '']'', Star Space, Plus (Lit CHR ''-''), Opt (Lit CHR ''>''),
     Star Space, Lit CHR ''('']"

fun tokens :: "state \<Rightarrow> rule list" where
  "tokens Root =
     strings @ comments @ keywords_rules @ pseudo_keywords
     @ [(Cls False (chars '',;''), Tok Punctuation, [])]
     @ labels @ operators @ expressions @ whitespace
     @ [(Lit CHR ''('', Tok Punctuation, [Push In_Paren]),
        (Lit CHR ''['', Tok Punctuation, [Push In_Bracket]),
        (Lit CHR ''{'', Tok Punctuation, [Push In_Brace])]"
| "tokens In_Paren =
     strings @ comments @ keywords_rules
     @ [(Cls False (chars '',|''), Tok Punctuation, [])]
     @ labels @ operators @ expressions @ whitespace
     @ [(Lit CHR ''('', Tok Punctuation, [Push_Same]),
        (paren_to_paren, Tok Punctuation, []),
        (paren_to_bracket, Tok Punctuation, [Pop, Push In_Bracket]),
        (Lit CHR '')'', Tok Punctuation, [Pop]),
        (Lit CHR ''['', Tok Punctuation, [Push In_Bracket]),
        (Lit CHR ''{'', Tok Punctuation, [Push In_Brace])]"
| "tokens In_Bracket =
     strings @ comments
     @ [(seq [lit ''WHERE'', Wordb], Tok Keyword, []),
        (Cls False (chars '',|''), Tok Punctuation, [])]
     @ labels @ operators @ expressions @ whitespace
     @ [(Lit CHR ''('', Tok Punctuation, [Push In_Paren]),
        (Lit CHR ''['', Tok Punctuation, [Push_Same]),
        (bracket_to_paren, Tok Punctuation, [Pop, Push In_Paren]),
        (Lit CHR '']'', Tok Punctuation, [Pop]),
        (Lit CHR ''{'', Tok Punctuation, [Push In_Brace])]"
| "tokens In_Brace =
     strings @ comments
     @ [(Cls False (chars '',:''), Tok Punctuation, [])]
     @ operators @ expressions @ whitespace
     @ [(Lit CHR ''('', Tok Punctuation, [Push In_Paren]),
        (Lit CHR ''['', Tok Punctuation, [Push In_Bracket]),
        (Lit CHR ''{'', Tok Punctuation, [Push_Same]),
        (Lit CHR ''}'', Tok Punctuation, [Pop])]"
| "tokens Multiline_Comments = multiline_comments"

section \<open>The tokenizer driver\<close>

text \<open>
  The loop that applies the rules is \<^verbatim>\<open>RegexLexer.get_tokens_unprocessed\<close> of the
  Pygments library, which \<^verbatim>\<open>CypherLexer\<close> inherits.  A token is the triple the
  generator yields: offset, token type, text.
\<close>

type_synonym token = "nat \<times> token_type \<times> string"

text \<open>\<^verbatim>\<open>text[a:b]\<close>\<close>

definition slice :: "string \<Rightarrow> nat \<Rightarrow> nat \<Rightarrow> string" where
  "slice text a b = take (b - a) (drop a text)"

text \<open>The callback of \<^verbatim>\<open>bygroups\<close>: for every group in turn, a token with the group's
  text, unless the group did not take part in the match or its text is empty.\<close>

fun bygroups :: "token_type list \<Rightarrow> nat \<Rightarrow> string \<Rightarrow> captures \<Rightarrow> token list" where
  "bygroups [] i text g = []"
| "bygroups (action # args) i text g =
     (case map_of g i of
        None \<Rightarrow> bygroups args (Suc i) text g
      | Some (s, e) \<Rightarrow>
          (if slice text s e \<noteq> [] then [(s, action, slice text s e)] else [])
          @ bygroups args (Suc i) text g)"

definition emit :: "action \<Rightarrow> string \<Rightarrow> nat \<Rightarrow> nat \<times> captures \<Rightarrow> token list" where
  "emit action text pos m =
     (case action of
        Tok token_type \<Rightarrow> [(pos, token_type, slice text pos (fst m))]
      | Bygroups args \<Rightarrow> bygroups args 1 text (snd m))"

text \<open>The \<^verbatim>\<open>for\<close> loop over the rules of the current state: the first rule that matches
  at the offset.\<close>

fun first_match :: "rule list \<Rightarrow> string \<Rightarrow> nat \<Rightarrow> ((nat \<times> captures) \<times> action \<times> stack_op list) option" where
  "first_match [] text pos = None"
| "first_match ((rex, action, new_state) # rules) text pos =
     (case rexmatch rex text pos of
        Some m \<Rightarrow> Some (m, action, new_state)
      | None \<Rightarrow> first_match rules text pos)"

text \<open>The state transition.  The top of the stack is the last element.  A pop keeps at
  least one state on the stack.\<close>

fun apply_ops :: "stack_op list \<Rightarrow> state list \<Rightarrow> state list" where
  "apply_ops [] statestack = statestack"
| "apply_ops (Pop # ops) statestack =
     apply_ops ops (if length statestack > 1 then butlast statestack else statestack)"
| "apply_ops (Push_Same # ops) statestack = apply_ops ops (statestack @ [last statestack])"
| "apply_ops (Push s # ops) statestack = apply_ops ops (statestack @ [s])"

text \<open>One round of the \<^verbatim>\<open>while\<close> loop: the tokens it yields, the new offset and the
  new stack; or the end of the loop.\<close>

datatype step = Finished | Emitted "token list" nat "state list"

definition lex_step :: "string \<Rightarrow> nat \<Rightarrow> state list \<Rightarrow> step" where
  "lex_step text pos statestack =
     (case first_match (tokens (last statestack)) text pos of
        Some (m, action, new_state) \<Rightarrow>
          Emitted (emit action text pos m) (fst m) (apply_ops new_state statestack)
      | None \<Rightarrow>
          if pos < length text then
            (if text ! pos = newline then Emitted [(pos, Whitespace, [newline])] (pos + 1) [Root]
             else Emitted [(pos, Error, [text ! pos])] (pos + 1) statestack)
          else Finished)"

text \<open>
  The loop has no bound of its own: a rule that matched the empty text without changing
  the state would repeat for ever.  So the loop is a partial function, and \<open>None\<close> is
  "does not return".  Its result lists the rounds: the stack at the start of the round,
  the tokens yielded, the stack at its end.
\<close>

type_synonym round = "state list \<times> token list \<times> state list"

partial_function (option) lex_loop :: "string \<Rightarrow> nat \<Rightarrow> state list \<Rightarrow> round list option" where
  "lex_loop text pos statestack =
     (case lex_step text pos statestack of
        Finished \<Rightarrow> Some []
      | Emitted toks pos' statestack' \<Rightarrow>
          Option.bind (lex_loop text pos' statestack')
            (\<lambda>rounds. Some ((statestack, toks, statestack') # rounds)))"

definition rounds :: "string \<Rightarrow> round list option" where
  "rounds text = lex_loop text 0 [Root]"

definition get_tokens_unprocessed :: "string \<Rightarrow> token list option" where
  "get_tokens_unprocessed text = map_option (\<lambda>rs. concat (map (fst \<circ> snd) rs)) (rounds text)"

section \<open>The statement splitter\<close>

text \<open>\<^verbatim>\<open>str.strip()\<close>\<close>

definition strip :: "string \<Rightarrow> string" where
  "strip s = rev (dropWhile is_space (rev (dropWhile is_space s)))"

text \<open>The body of \<^verbatim>\<open>get_statements\<close>: the loop over the tokens with the list
  \<^verbatim>\<open>fragments\<close>, then the statements after the loop.\<close>

fun split_tokens :: "token list \<Rightarrow> string list \<Rightarrow> string list" where
  "split_tokens [] fragments =
     (let statement = strip (concat fragments) in
      if statement \<noteq> [] then [statement] else [])"
| "split_tokens ((index, token_type, val) # toks) fragments =
     (if token_type = Punctuation \<and> val = '';'' then
        (let statement = strip (concat fragments) in
         if statement \<noteq> [] then statement # split_tokens toks [] else split_tokens toks [])
      else split_tokens toks (fragments @ [val]))"

definition get_statements :: "string \<Rightarrow> string list option" where
  "get_statements text = map_option (\<lambda>toks. split_tokens toks []) (get_tokens_unprocessed text)"

section \<open>Auxiliary definitions\<close>

text \<open>Definitions used in the proofs only.\<close>

fun word_atoms :: "string \<Rightarrow> regex list" where
  "word_atoms [] = [Wordb]"
| "word_atoms (c # cs) = (if c = CHR '' '' then Plus Space else Lit c) # word_atoms cs"

definition word_regex :: "string \<Rightarrow> regex" where
  "word_regex w = seq (word_atoms w)"

definition word_rules :: "token_type \<Rightarrow> string list \<Rightarrow> rule list" where
  "word_rules tt ws = map (\<lambda>w. (word_regex w, Tok tt, [])) ws"

definition symbol_rules :: "token_type \<Rightarrow> string list \<Rightarrow> rule list" where
  "symbol_rules tt ws = map (\<lambda>w. (lit w, Tok tt, [])) ws"

definition sorted_keywords :: "string list" where
  "sorted_keywords =
    [''_PRAGMA'', ''YIELD'', ''WITH HEADERS'', ''WITH DISTINCT'', ''WITH'', ''WHERE'',
     ''USING SCAN'', ''USING PERIODIC COMMIT'', ''USING JOIN ON'', ''USING INDEX'',
     ''UNWIND'', ''UNION ALL'', ''UNION'', ''TARGET'', ''START'', ''SOURCE'',
     ''SNAPSHOT'', ''SKIP'', ''SET'', ''RETURN DISTINCT'', ''RETURN'', ''REMOVE'',
     ''RELOCATE'', ''PROFILE'', ''PERSIST'', ''ORDER BY'', ''OPTIONAL MATCH'',
     ''ON MATCH SET'', ''ON CREATE SET'', ''MERGE'', ''MATCH'', ''LOAD CSV'', ''LOAD'',
     ''LIMIT'', ''IS UNIQUE'', ''IS NODE KEY'', ''INTO'', ''INDEX ON'', ''GRAPH OF'',
     ''GRAPH AT'', ''GRAPH'', ''FROM'', ''FOREACH'', ''FIELDTERMINATOR'', ''EXPLAIN'',
     ''DROP'', ''DO'', ''DETACH DELETE'', ''DESC'', ''DESCENDING'', ''DELETE'',
     ''CYPHER'', ''CREATE UNIQUE'', ''CREATE'', ''CONSTRAINT ON'', ''CALL'', ''AS'',
     ''ASSERT EXISTS'', ''ASSERT'', ''ASC'', ''ASCENDING'', ''>>'']"

definition sorted_operator_words :: "string list" where
  "sorted_operator_words =
    [''XOR'', ''WHEN'', ''THEN'', ''STARTS WITH'', ''OR'', ''NOT'', ''IS NULL'',
     ''IS NOT NULL'', ''IN'', ''END'', ''ENDS WITH'', ''ELSE'', ''DISTINCT'',
     ''CONTAINS'', ''CASE'', ''AND'']"

definition sorted_operator_symbols :: "string list" where
  "sorted_operator_symbols =
    [''^'', ''>='', ''>'', ''=~'', ''='', ''<>'', ''<='', ''<'', ''/'', ''.'', ''-'',
     ''+='', ''+'', ''*'', ''%'', ''!='']"

text \<open>The first rule that matches, with the matcher state built once.\<close>

fun first_match_at :: "rule list \<Rightarrow> mstate \<Rightarrow> ((nat \<times> captures) \<times> action \<times> stack_op list) option" where
  "first_match_at [] st = None"
| "first_match_at ((rex, action, new_state) # rules) st =
     (case mt rex st of
        [] \<Rightarrow> first_match_at rules st
      | (e, pv, cs, g) # _ \<Rightarrow> Some ((e, g), action, new_state))"

text \<open>The matcher state at an offset of a text.\<close>

definition state_at :: "string \<Rightarrow> nat \<Rightarrow> captures \<Rightarrow> mstate" where
  "state_at tx p g = (p, prev_char tx p, drop p tx, g)"

text \<open>A match leads from one offset of the text to a later one.\<close>

definition reaches :: "string \<Rightarrow> mstate \<Rightarrow> mstate \<Rightarrow> bool" where
  "reaches tx st st' =
     (\<forall>p g. st = state_at tx p g \<and> p \<le> length tx \<longrightarrow>
        (\<exists>p' g'. st' = state_at tx p' g' \<and> p \<le> p' \<and> p' \<le> length tx))"

text \<open>A pattern every match of which takes at least one character.\<close>

fun consumes :: "regex \<Rightarrow> bool" where
  "consumes (Lit x) = True"
| "consumes Dot = True"
| "consumes (Cls neg rs) = True"
| "consumes Space = True"
| "consumes (Seq a b) = (consumes a \<or> consumes b)"
| "consumes (Alt a b) = (consumes a \<and> consumes b)"
| "consumes (Plus r) = consumes r"
| "consumes (Group i r) = consumes r"
| "consumes r = False"

text \<open>A pattern without groups.\<close>

fun nogroups :: "regex \<Rightarrow> bool" where
  "nogroups (Seq a b) = (nogroups a \<and> nogroups b)"
| "nogroups (Alt a b) = (nogroups a \<and> nogroups b)"
| "nogroups (Star r) = nogroups r"
| "nogroups (Plus r) = nogroups r"
| "nogroups (Opt r) = nogroups r"
| "nogroups (Group i r) = False"
| "nogroups r = True"

text \<open>The group spans of a matcher state.\<close>

definition caps :: "mstate \<Rightarrow> captures" where
  "caps st = (case st of (p, pv, cs, g) \<Rightarrow> g)"

text \<open>The bodies of a pattern that is a sequence of groups numbered from \<open>i\<close> on, each
  without groups inside.\<close>

fun group_bodies :: "nat \<Rightarrow> regex \<Rightarrow> regex list option" where
  "group_bodies i (Group j r) = (if j = i \<and> nogroups r then Some [r] else None)"
| "group_bodies i (Seq (Group j r) R) =
     (if j = i \<and> nogroups r then map_option ((#) r) (group_bodies (Suc i) R) else None)"
| "group_bodies i r = None"

text \<open>The tokens of a grouped rule, from the positions where the groups end.\<close>

fun group_toks :: "string \<Rightarrow> token_type list \<Rightarrow> nat \<Rightarrow> nat list \<Rightarrow> token list" where
  "group_toks tx (a # args) p (c # cuts) =
     (if slice tx p c \<noteq> [] then [(p, a, slice tx p c)] else []) @ group_toks tx args c cuts"
| "group_toks tx args p cuts = []"

text \<open>Each group body matches from the end of the one before to its own end.\<close>

fun splits :: "string \<Rightarrow> regex list \<Rightarrow> nat \<Rightarrow> nat list \<Rightarrow> nat \<Rightarrow> bool" where
  "splits tx [] p [] p' = (p = p')"
| "splits tx (b # bs) p (c # cuts) p' =
     (p \<le> c \<and> (\<exists>g. state_at tx c g \<in> set (mt b (state_at tx p g))) \<and> splits tx bs c cuts p')"
| "splits tx bs p cuts p' = False"

text \<open>The text of a token.\<close>

fun tok_text :: "token \<Rightarrow> string" where
  "tok_text (i, tt, v) = v"

text \<open>What the coverage proof needs of a rule: the pattern takes at least one character,
  and the groups of a \<^verbatim>\<open>bygroups\<close> rule are a sequence that covers the match.\<close>

definition rule_ok :: "rule \<Rightarrow> bool" where
  "rule_ok rl =
     (case rl of (r, action, ops) \<Rightarrow>
        consumes r \<and>
        (case action of
           Tok tt \<Rightarrow> True
         | Bygroups args \<Rightarrow>
             (case group_bodies 1 r of None \<Rightarrow> False | Some bs \<Rightarrow> length bs = length args)))"

text \<open>Tokens that lie end to end from one offset of the text to another: each starts where
  the one before ends, is not empty, and carries the text at its offset.\<close>

fun tiles :: "string \<Rightarrow> nat \<Rightarrow> token list \<Rightarrow> nat \<Rightarrow> bool" where
  "tiles tx p [] p' = (p = p')"
| "tiles tx p ((i, tt, v) # ts) p' =
     (i = p \<and> v \<noteq> [] \<and> v = slice tx p (p + length v) \<and> tiles tx (p + length v) ts p')"

text \<open>Patterns that match without taking a character.\<close>

definition zero_width :: "regex \<Rightarrow> bool" where
  "zero_width a = (a = Eps \<or> a = Bol \<or> a = Wordb)"

text \<open>A sufficient test that a pattern has no match on a text that begins with a given
  character.\<close>

fun cannot_start :: "regex \<Rightarrow> char \<Rightarrow> bool" where
  "cannot_start (Lit x) c = (lower c \<noteq> lower x)"
| "cannot_start Dot c = (c = newline)"
| "cannot_start (Cls neg rs) c = (\<not> cls_ok neg rs c)"
| "cannot_start Space c = (\<not> is_space c)"
| "cannot_start (Seq a b) c = (cannot_start a c \<or> (zero_width a \<and> cannot_start b c))"
| "cannot_start (Alt a b) c = (cannot_start a c \<and> cannot_start b c)"
| "cannot_start (Plus r) c = cannot_start r c"
| "cannot_start (Group i r) c = cannot_start r c"
| "cannot_start r c = False"

text \<open>The test at which \<^verbatim>\<open>get_statements\<close> ends a statement.\<close>

definition is_separator :: "token \<Rightarrow> bool" where
  "is_separator tok = (case tok of (index, token_type, val) \<Rightarrow> token_type = Punctuation \<and> val = '';'')"

text \<open>A sufficient test that a rule never yields a separator token.\<close>

definition no_separator :: "rule \<Rightarrow> bool" where
  "no_separator rl =
     (case rl of (r, action, ops) \<Rightarrow>
        (case action of
           Tok tt \<Rightarrow> tt \<noteq> Punctuation \<or> cannot_start r CHR '';''
         | Bygroups args \<Rightarrow>
             (case group_bodies 1 r of
                None \<Rightarrow> False
              | Some bs \<Rightarrow> list_all2 (\<lambda>a b. a \<noteq> Punctuation \<or> cannot_start b CHR '';'') args bs)))"

text \<open>The texts between separator tokens, untrimmed.\<close>

fun chunks_from :: "token list \<Rightarrow> string \<Rightarrow> string list" where
  "chunks_from [] acc = [acc]"
| "chunks_from (tok # toks) acc =
     (if is_separator tok then acc # chunks_from toks [] else chunks_from toks (acc @ tok_text tok))"

definition chunks :: "token list \<Rightarrow> string list" where
  "chunks toks = chunks_from toks []"

text \<open>One literal is a strict prefix of another.\<close>

definition is_strict_prefix :: "string \<Rightarrow> string \<Rightarrow> bool" where
  "is_strict_prefix a b = (length a < length b \<and> take (length a) b = a)"

text \<open>In a list, the first occurrence of \<open>x\<close> is followed, somewhere, by \<open>y\<close>.\<close>

definition comes_before :: "'a \<Rightarrow> 'a \<Rightarrow> 'a list \<Rightarrow> bool" where
  "comes_before x y xs = (x \<noteq> y \<and> y \<in> set (dropWhile (\<lambda>z. z \<noteq> x) xs))"

text \<open>The pairs of a table in which the first is a strict prefix of the second.\<close>

definition prefix_pairs :: "string list \<Rightarrow> (string \<times> string) list" where
  "prefix_pairs T = concat (map (\<lambda>a. concat (map (\<lambda>b. if is_strict_prefix a b then [(a, b)] else []) T)) T)"

fun slashes :: "string \<Rightarrow> nat" where
  "slashes (c # d # cs) = (if c = CHR ''/'' \<and> d = CHR ''/'' then 1 else 0) + slashes (d # cs)"
| "slashes cs = 0"

definition comment_tail :: regex where
  "comment_tail = Seq (Lit CHR ''/'') (Seq (Lit CHR ''/'') (Seq (Star Dot) (Lit newline)))"

definition comment_rule :: rule where
  "comment_rule = (line_comment, Tok Comment_Single, [])"

section \<open>Evaluating the lexer on a given text\<close>

text \<open>
  Lemmas that let the simplifier run the lexer: the character functions on the bits of a
  character, the rule lists that \<^verbatim>\<open>word_list\<close> and \<^verbatim>\<open>symbol_list\<close> produce, written out
  in their sorted order, and the matcher unfolded one pattern at a time.
\<close>

lemma lower_Char: "lower (Char b0 b1 b2 b3 b4 b5 b6 b7) =
   Char b0 b1 b2 b3 b4 (b5 \<or> (b6 \<and> \<not> b7 \<and> (b0 \<or> b1 \<or> b2 \<or> b3 \<or> b4) \<and> \<not> (b3 \<and> b4 \<and> (b2 \<or> (b0 \<and> b1))))) b6 b7"
  by (cases b0; cases b1; cases b2; cases b3; cases b4; cases b5; cases b6; cases b7; simp add: lower_def)

lemma upper_Char: "upper (Char b0 b1 b2 b3 b4 b5 b6 b7) =
   Char b0 b1 b2 b3 b4 (b5 \<and> \<not> (b6 \<and> \<not> b7 \<and> (b0 \<or> b1 \<or> b2 \<or> b3 \<or> b4) \<and> \<not> (b3 \<and> b4 \<and> (b2 \<or> (b0 \<and> b1))))) b6 b7"
  by (cases b0; cases b1; cases b2; cases b3; cases b4; cases b5; cases b6; cases b7; simp add: upper_def)

lemma word_list_keywords:
  "word_list cypher_keywords tt = map (\<lambda>w. (word_pattern w, tt)) sorted_keywords"
  unfolding word_list_def cypher_keywords_def sorted_keywords_def word_pattern_def backslash_def
  by simp

lemma word_list_pseudo:
  "word_list cypher_pseudo_keywords tt = map (\<lambda>w. (word_pattern w, tt)) [''ROLLBACK'', ''COMMIT'', ''BEGIN'']"
  unfolding word_list_def cypher_pseudo_keywords_def word_pattern_def backslash_def
  by simp

lemma word_list_operators:
  "word_list cypher_operator_words tt = map (\<lambda>w. (word_pattern w, tt)) sorted_operator_words"
  unfolding word_list_def cypher_operator_words_def sorted_operator_words_def word_pattern_def backslash_def
  by simp

lemma word_list_constants:
  "word_list cypher_constants tt = map (\<lambda>w. (word_pattern w, tt)) [''true'', ''null'', ''false'']"
  unfolding word_list_def cypher_constants_def word_pattern_def backslash_def
  by simp

lemma symbol_list_operators:
  "symbol_list cypher_operator_symbols tt = map (\<lambda>w. (symbol_pattern w, tt)) sorted_operator_symbols"
  unfolding symbol_list_def cypher_operator_symbols_def sorted_operator_symbols_def symbol_pattern_def backslash_def
  by simp


lemma compiled_map:
  "compiled (map (\<lambda>w. (f w, tt)) ws) = map (\<lambda>w. (the (re_compile (f w)), Tok tt, [])) ws"
  by (simp add: compiled_def)

lemma keywords_rules_eq: "keywords_rules = word_rules Keyword sorted_keywords"
  unfolding keywords_rules_def word_list_keywords compiled_map word_rules_def
  by (simp add: sorted_keywords_def re_compile_def word_pattern_def word_regex_def
      backslash_def special_def escape_def)

lemma pseudo_keywords_eq:
  "pseudo_keywords = word_rules Keyword [''ROLLBACK'', ''COMMIT'', ''BEGIN'']"
  unfolding pseudo_keywords_def word_list_pseudo compiled_map word_rules_def
  by (simp add: re_compile_def word_pattern_def word_regex_def
      backslash_def special_def escape_def)

lemma constants_eq:
  "constants = word_rules Name_Constant [''true'', ''null'', ''false'']"
  unfolding constants_def word_list_constants compiled_map word_rules_def
  by (simp add: re_compile_def word_pattern_def word_regex_def
      backslash_def special_def escape_def)

lemma operators_eq:
  "operators = word_rules Operator sorted_operator_words @ symbol_rules Operator sorted_operator_symbols"
  unfolding operators_def word_list_operators symbol_list_operators compiled_map word_rules_def symbol_rules_def
  by (simp add: sorted_operator_words_def sorted_operator_symbols_def re_compile_def word_pattern_def
      symbol_pattern_def word_regex_def lit_def backslash_def special_def escape_def)

lemma first_match_eq:
  "first_match rules text pos = first_match_at rules (pos, prev_char text pos, drop pos text, [])"
  by (induction rules) (auto simp: rexmatch_def split: list.splits)

lemma first_match_at_append:
  "first_match_at (rs @ rs') st =
     (case first_match_at rs st of None \<Rightarrow> first_match_at rs' st | Some r \<Rightarrow> Some r)"
  by (induction rs) (auto split: list.splits)

lemma word_regex_Nil: "mt (word_regex []) st = mt Wordb st"
  by (simp add: word_regex_def)

lemma word_regex_Cons:
  "mt (word_regex (c # cs)) st =
     concat (map (mt (word_regex cs)) (mt (if c = CHR '' '' then Plus Space else Lit c) st))"
  by (cases cs) (simp_all add: word_regex_def)

lemma word_regex_lit_Nil:
  "c \<noteq> CHR '' '' \<Longrightarrow> mt (word_regex (c # cs)) (p, pv, [], g) = []"
  by (simp add: word_regex_Cons)

lemma word_regex_lit_Cons:
  "c \<noteq> CHR '' '' \<Longrightarrow> mt (word_regex (c # cs)) (p, pv, x # xs, g) =
     (if lower x = lower c then mt (word_regex cs) (Suc p, Some x, xs, g) else [])"
  by (simp add: word_regex_Cons)

lemma word_regex_space:
  "mt (word_regex (CHR '' '' # cs)) st = concat (map (mt (word_regex cs)) (mt (Plus Space) st))"
  by (simp add: word_regex_Cons)

lemma word_rules_Nil: "first_match_at (word_rules tt []) st = None"
  by (simp add: word_rules_def)

lemma word_rules_Cons:
  "first_match_at (word_rules tt (w # ws)) st =
     (case mt (word_regex w) st of
        [] \<Rightarrow> first_match_at (word_rules tt ws) st
      | (e, pv, cs, g) # _ \<Rightarrow> Some ((e, g), Tok tt, []))"
  unfolding word_rules_def by simp

lemma lit_single: "mt (lit [c]) st = mt (Lit c) st"
  by (simp add: lit_def)

lemma lit_Cons: "mt (lit (c # d # cs)) st = concat (map (mt (lit (d # cs))) (mt (Lit c) st))"
  by (simp add: lit_def)

lemma symbol_rules_Nil: "first_match_at (symbol_rules tt []) st = None"
  by (simp add: symbol_rules_def)

lemma symbol_rules_Cons:
  "first_match_at (symbol_rules tt (w # ws)) st =
     (case mt (lit w) st of
        [] \<Rightarrow> first_match_at (symbol_rules tt ws) st
      | (e, pv, cs, g) # _ \<Rightarrow> Some ((e, g), Tok tt, []))"
  unfolding symbol_rules_def by simp


lemma char_le_bits:
  "(Char a0 a1 a2 a3 a4 a5 a6 a7 \<le> Char b0 b1 b2 b3 b4 b5 b6 b7) =
     (\<not> a7 \<and> b7 \<or> (a7 = b7) \<and> (\<not> a6 \<and> b6 \<or> (a6 = b6) \<and> (\<not> a5 \<and> b5 \<or> (a5 = b5) \<and> (\<not> a4 \<and> b4 \<or> (a4 = b4) \<and> (\<not> a3 \<and> b3 \<or> (a3 = b3) \<and> (\<not> a2 \<and> b2 \<or> (a2 = b2) \<and> (\<not> a1 \<and> b1 \<or> (a1 = b1) \<and> (\<not> a0 \<and> b0 \<or> (a0 = b0) \<and> True))))))))"
  by (simp add: less_bool_def) blast

lemma one_Nil: "one P (p, pv, [], g) = []" by simp
lemma one_Cons: "one P (p, pv, c # cs, g) = (if P c then [(Suc p, Some c, cs, g)] else [])" by simp

lemma star_one_Nil: "star_iter (one P) (p, pv, [], g) = [(p, pv, [], g)]"
  by (simp add: star_iter.simps)

lemma star_one_Cons:
  "star_iter (one P) (p, pv, c # cs, g) =
     (if P c then star_iter (one P) (Suc p, Some c, cs, g) @ [(p, pv, c # cs, g)]
      else [(p, pv, c # cs, g)])"
  by (subst star_iter.simps) (simp add: remaining_def)

lemma star_general:
  "star_iter (mt r) st =
     concat (map (star_iter (mt r)) (filter (\<lambda>st'. remaining st' < remaining st) (mt r st))) @ [st]"
  by (subst star_iter.simps) simp

lemma length_less:
  "(length (x # xs) < length (y # ys)) = (length xs < length ys)"
  "(length [] < length (y # ys)) = True"
  "(length xs < length []) = False"
  by simp_all

lemma mt_applied:
  "mt Eps st = [st]"
  "mt Bol (p, pv, cs, g) = (if pv = None \<or> pv = Some newline then [(p, pv, cs, g)] else [])"
  "mt Wordb (p, pv, cs, g) = (if word_before pv \<noteq> word_after cs then [(p, pv, cs, g)] else [])"
  "mt (Seq a b) st = concat (map (mt b) (mt a st))"
  "mt (Alt a b) st = mt a st @ mt b st"
  "mt (Plus r) st = concat (map (star_iter (mt r)) (mt r st))"
  "mt (Opt r) st = mt r st @ [st]"
  "mt (Group i r) (p, pv, cs, g) =
     map (\<lambda>(p', pv', cs', g'). (p', pv', cs', (i, p, p') # g')) (mt r (p, pv, cs, g))"
  by simp_all

lemmas mt_unapplied = mt.simps(2,3,4,5,10)

lemma mt_names:
  "mt plain_name st = mt (Seq (Cls False [(CHR ''A'', CHR ''Z''), (CHR ''a'', CHR ''z''), (CHR ''_'', CHR ''_'')])
     (Star (Cls False [(CHR ''0'', CHR ''9''), (CHR ''A'', CHR ''Z''), (CHR ''a'', CHR ''z''),
                       (CHR ''_'', CHR ''_'')]))) st"
  "mt dotted_name st = mt (Seq (Cls False [(CHR ''A'', CHR ''Z''), (CHR ''a'', CHR ''z''), (CHR ''_'', CHR ''_'')])
     (Star (Cls False [(CHR ''0'', CHR ''9''), (CHR ''A'', CHR ''Z''), (CHR ''a'', CHR ''z''),
                       (CHR ''_'', CHR ''_''), (CHR ''.'', CHR ''.'')]))) st"
  "mt quoted_name st = mt (Seq (Lit backtick)
     (Seq (Plus (Alt (Seq (Lit backtick) (Lit backtick)) (Cls True [(backtick, backtick)])))
     (Lit backtick))) st"
  "mt digit = mt (Cls False [(CHR ''0'', CHR ''9'')])"
  "mt hexdigit = mt (Cls False [(CHR ''0'', CHR ''9''), (CHR ''A'', CHR ''F''), (CHR ''a'', CHR ''f'')])"
  by (simp_all add: plain_name_def dotted_name_def quoted_name_def digit_def hexdigit_def)

lemma mt_string_body:
  "mt (string_body q1 q2) st =
     mt (Seq (Lit backslash) (Cls False (chars ''bfnrt'' @ [(q1, q1), (q2, q2), (backslash, backslash)]))) st
     @ mt (seq [Lit backslash, Lit CHR ''u'', times 4 hexdigit]) st
     @ mt (seq [Lit backslash, Lit CHR ''U'', times 8 hexdigit]) st
     @ mt (Cls True [(backslash, backslash), (q2, q2)]) st"
  by (simp add: string_body_def)

lemma mt_transitions:
  "mt line_comment st = mt (seq [Bol, Star Dot, Lit CHR ''/'', Lit CHR ''/'', Star Dot, Lit newline]) st"
  "mt paren_to_paren st = mt (seq [Lit CHR '')'', Star Space, Opt (Lit CHR ''<''), Plus (Lit CHR ''-''),
     Opt (Lit CHR ''>''), Star Space, Lit CHR ''('']) st"
  "mt paren_to_bracket st = mt (seq [Lit CHR '')'', Star Space, Opt (Lit CHR ''<''), Plus (Lit CHR ''-''),
     Star Space, Lit CHR ''['']) st"
  "mt bracket_to_paren st = mt (seq [Lit CHR '']'', Star Space, Plus (Lit CHR ''-''), Opt (Lit CHR ''>''),
     Star Space, Lit CHR ''('']) st"
  by (simp_all add: line_comment_def paren_to_paren_def paren_to_bracket_def bracket_to_paren_def)

lemma add_one: "n + 1 = Suc n" by simp
lemma minus_one: "Suc n - 1 = n" by simp
lemma one_less_length: "(1 < length (x # xs)) = (xs \<noteq> [])" by (cases xs) auto
lemma less_length_Nil: "(n < length []) = False" by simp
lemma zero_less_length: "(0 < length (x # xs)) = True" by simp
lemma Suc_less_length: "(Suc n < length (x # xs)) = (n < length xs)" by simp
lemma bind_Some: "Option.bind (Some x) f = f x" by simp

lemmas basic_eval = simp_thms if_True if_False char.inject list.inject list.distinct
  option.inject option.distinct prod.inject list.case option.case prod.case
  concat.simps list.map append.simps HOL.refl fst_conv snd_conv
  nat.inject nat.distinct drop_0 drop_Suc_Cons take_0 take_Suc_Cons drop_Nil take_Nil
  nth_Cons_0 nth_Cons_Suc diff_Suc_Suc minus_nat.diff_0 diff_0_eq_0
  add_one minus_one one_less_length less_length_Nil zero_less_length Suc_less_length
  filter.simps rev.simps dropWhile.simps Let_def o_apply option.map bind_Some
  last.simps butlast.simps list.set insert_iff empty_iff
  token_type.distinct state.distinct de_Morgan_conj de_Morgan_disj not_not

lemmas table_eval = keywords_rules_eq pseudo_keywords_eq constants_eq operators_eq
  sorted_keywords_def sorted_operator_words_def sorted_operator_symbols_def
  strings_def comments_def multiline_comments_def labels_def procedures_def functions_rules_def
  aliases_def variables_def parameters_def numbers_def expressions_def whitespace_def
  tokens.simps seq.simps times_def chars_def replicate.simps

lemmas match_eval = first_match_eq first_match_at.simps first_match_at_append
  word_regex_Nil word_regex_lit_Nil word_regex_lit_Cons word_regex_space
  word_rules_Nil word_rules_Cons lit_single lit_Cons symbol_rules_Nil symbol_rules_Cons
  lower_Char upper_Char char_le_bits is_space_def is_word_def cls_ok_def in_class_def list_ex_Nil_iff list_ex_Cons_iff
  word_before_def word_after_def one_Nil one_Cons star_one_Nil star_one_Cons
  mt_applied mt_unapplied mt_names mt_string_body mt_transitions
  star_general length_less remaining_def prev_char_def
  backslash_def squote_def dquote_def backtick_def newline_def

lemmas group_index_eval = Suc_1 Suc_numeral add_num_simps eq_numeral_simps num.inject num.distinct

lemmas lex_eval = basic_eval table_eval match_eval group_index_eval lex_step_def emit_def slice_def
  bygroups.simps map_of.simps fun_upd_apply apply_ops.simps step.case action.case
  rounds_def get_tokens_unprocessed_def get_statements_def strip_def split_tokens.simps
  lex_loop.simps

lemmas lex_cong = if_weak_cong list.case_cong_weak option.case_cong_weak prod.case_cong_weak
  step.case_cong_weak action.case_cong_weak


section \<open>General properties of the matcher and the driver\<close>

lemma star_iter_rel:
  assumes "st' \<in> set (star_iter f st)"
    and "\<And>s s'. s' \<in> set (f s) \<Longrightarrow> R s s'"
    and "\<And>s. R s s"
    and "\<And>s s' s''. R s s' \<Longrightarrow> R s' s'' \<Longrightarrow> R s s''"
  shows "R st st'"
  using assms
proof (induction f st arbitrary: st' rule: star_iter.induct)
  case (1 f st)
  from "1.prems"(1) have "st' = st \<or> (\<exists>s \<in> set (f st). remaining s < remaining st \<and> st' \<in> set (star_iter f s))"
    by (subst (asm) star_iter.simps) auto
  then show ?case
  proof
    assume "st' = st" then show ?thesis by (simp add: "1.prems"(3))
  next
    assume "\<exists>s \<in> set (f st). remaining s < remaining st \<and> st' \<in> set (star_iter f s)"
    then obtain s where s: "s \<in> set (f st)" "remaining s < remaining st" "st' \<in> set (star_iter f s)"
      by blast
    have "R s st'" using "1.IH"[of s st'] s "1.prems"(2,3,4) by simp
    moreover have "R st s" by (rule "1.prems"(2)[OF s(1)])
    ultimately show ?thesis using "1.prems"(4) by blast
  qed
qed

lemma one_state_at:
  assumes "st' \<in> set (one P (state_at tx p g))"
  shows "st' = state_at tx (Suc p) g \<and> p < length tx \<and> P (tx ! p)"
proof -
  from assms obtain c cs where d: "drop p tx = c # cs"
    by (cases "drop p tx") (auto simp: state_at_def)
  then have lt: "p < length tx" by (metis drop_all list.distinct(1) not_le)
  have c: "c = tx ! p" using d lt by (metis nth_via_drop)
  have cs: "cs = drop (Suc p) tx" using d by (metis drop_Suc tl_drop list.sel(3))
  from assms d have "P c" and "st' = (Suc p, Some c, cs, g)"
    by (auto simp: state_at_def split: if_splits)
  then show ?thesis using lt c cs by (simp add: state_at_def prev_char_def)
qed

lemma reaches_refl: "reaches tx s s"
  by (auto simp: reaches_def)

lemma reaches_trans:
  assumes "reaches tx s s'" "reaches tx s' s''"
  shows "reaches tx s s''"
  unfolding reaches_def
proof (intro allI impI)
  fix p g assume a: "s = state_at tx p g \<and> p \<le> length tx"
  with assms(1) obtain p' g' where b: "s' = state_at tx p' g'" "p \<le> p'" "p' \<le> length tx"
    unfolding reaches_def by blast
  with assms(2) obtain p'' g'' where c: "s'' = state_at tx p'' g''" "p' \<le> p''" "p'' \<le> length tx"
    unfolding reaches_def by blast
  from b c show "\<exists>p' g'. s'' = state_at tx p' g' \<and> p \<le> p' \<and> p' \<le> length tx"
    using le_trans by blast
qed

lemma one_reaches:
  assumes "s' \<in> set (one P s)"
  shows "reaches tx s s'"
  unfolding reaches_def
proof (intro allI impI)
  fix p g assume a: "s = state_at tx p g \<and> p \<le> length tx"
  with assms have "s' = state_at tx (Suc p) g \<and> p < length tx"
    using one_state_at by blast
  then show "\<exists>p' g'. s' = state_at tx p' g' \<and> p \<le> p' \<and> p' \<le> length tx"
    by (intro exI[of _ "Suc p"] exI[of _ g]) simp
qed

lemma mt_reaches: "s' \<in> set (mt r s) \<Longrightarrow> reaches tx s s'"
proof (induction r arbitrary: s s')
  case Eps then show ?case by (simp add: reaches_refl)
next
  case (Lit x) then show ?case by (simp add: one_reaches)
next
  case Dot then show ?case by (simp add: one_reaches)
next
  case (Cls neg rs) then show ?case by (simp add: one_reaches)
next
  case Space then show ?case by (simp add: one_reaches)
next
  case Bol then show ?case by (cases s) (auto simp: reaches_refl split: if_splits)
next
  case Wordb then show ?case by (cases s) (auto simp: reaches_refl split: if_splits)
next
  case (Seq a b)
  from Seq.prems obtain s1 where "s1 \<in> set (mt a s)" "s' \<in> set (mt b s1)" by auto
  then show ?case using Seq.IH reaches_trans by blast
next
  case (Alt a b)
  from Alt.prems have "s' \<in> set (mt a s) \<or> s' \<in> set (mt b s)" by simp
  then show ?case using Alt.IH by blast
next
  case (Star r)
  then have "s' \<in> set (star_iter (mt r) s)" by simp
  then show ?case
    by (rule star_iter_rel) (auto intro: Star.IH reaches_refl reaches_trans)
next
  case (Plus r)
  from Plus.prems obtain s1 where s1: "s1 \<in> set (mt r s)" "s' \<in> set (star_iter (mt r) s1)" by auto
  have "reaches tx s1 s'"
    using s1(2) by (rule star_iter_rel) (auto intro: Plus.IH reaches_refl reaches_trans)
  then show ?case using Plus.IH[OF s1(1)] reaches_trans by blast
next
  case (Opt r)
  from Opt.prems have "s' \<in> set (mt r s) \<or> s' = s" by auto
  then show ?case using Opt.IH reaches_refl by blast
next
  case (Group i r)
  obtain p pv cs g where s: "s = (p, pv, cs, g)" by (cases s)
  from Group.prems s obtain p' pv' cs' g' where
    m: "(p', pv', cs', g') \<in> set (mt r s)" and s': "s' = (p', pv', cs', (i, p, p') # g')"
    by auto
  have "reaches tx s (p', pv', cs', g')" using Group.IH[OF m] .
  then show ?case unfolding reaches_def s' state_at_def by auto
qed

lemma mt_state_at:
  assumes "s' \<in> set (mt r (state_at tx p g))" "p \<le> length tx"
  obtains p' g' where "s' = state_at tx p' g'" "p \<le> p'" "p' \<le> length tx"
  using mt_reaches[OF assms(1), of "tx"] assms(2) unfolding reaches_def by blast

lemma state_at_pos: "state_at tx p g = state_at tx p' g' \<Longrightarrow> p = p' \<and> g = g'"
  by (simp add: state_at_def)

lemma one_elim:
  assumes "s' \<in> set (one P s)"
  obtains p pv c cs g where "s = (p, pv, c # cs, g)" "P c" "s' = (Suc p, Some c, cs, g)"
proof -
  obtain p pv xs g where s: "s = (p, pv, xs, g)" by (cases s)
  show thesis
  proof (cases xs)
    case Nil then show ?thesis using assms s by simp
  next
    case (Cons c cs)
    then show ?thesis using assms s that by (simp split: if_splits)
  qed
qed

lemma one_remaining: "s' \<in> set (one P s) \<Longrightarrow> remaining s' < remaining s"
  by (erule one_elim) (simp add: remaining_def)

lemma one_caps: "s' \<in> set (one P s) \<Longrightarrow> caps s' = caps s"
  by (erule one_elim) (simp add: caps_def)

lemma zero_width:
  "s' \<in> set (mt Bol s) \<Longrightarrow> s' = s"
  "s' \<in> set (mt Wordb s) \<Longrightarrow> s' = s"
  "s' \<in> set (mt Eps s) \<Longrightarrow> s' = s"
  by (cases s; simp split: if_splits)+

lemma group_elim:
  assumes "s' \<in> set (mt (Group i r) s)"
  obtains p pv cs g p' pv' cs' g' where "s = (p, pv, cs, g)"
    "(p', pv', cs', g') \<in> set (mt r s)" "s' = (p', pv', cs', (i, p, p') # g')"
proof -
  obtain p pv cs g where s: "s = (p, pv, cs, g)" by (cases s)
  from assms s obtain p' pv' cs' g' where
    "(p', pv', cs', g') \<in> set (mt r s)" "s' = (p', pv', cs', (i, p, p') # g')"
    by auto
  then show thesis using that s by blast
qed

lemma seq_elim:
  assumes "s' \<in> set (mt (Seq a b) s)"
  obtains s1 where "s1 \<in> set (mt a s)" "s' \<in> set (mt b s1)"
  using assms by auto

lemma plus_elim:
  assumes "s' \<in> set (mt (Plus r) s)"
  obtains s1 where "s1 \<in> set (mt r s)" "s' \<in> set (star_iter (mt r) s1)"
  using assms by auto

lemma alt_elim: "s' \<in> set (mt (Alt a b) s) \<Longrightarrow> s' \<in> set (mt a s) \<or> s' \<in> set (mt b s)"
  by simp

lemma opt_elim: "s' \<in> set (mt (Opt r) s) \<Longrightarrow> s' \<in> set (mt r s) \<or> s' = s"
  by auto

lemma mt_remaining_le: "s' \<in> set (mt r s) \<Longrightarrow> remaining s' \<le> remaining s"
proof (induction r arbitrary: s s')
  case Eps then show ?case using zero_width by blast
next
  case (Lit x) then show ?case using one_remaining by (metis mt.simps(2) less_imp_le)
next
  case Dot then show ?case using one_remaining by (metis mt.simps(3) less_imp_le)
next
  case (Cls neg rs) then show ?case using one_remaining by (metis mt.simps(4) less_imp_le)
next
  case Space then show ?case using one_remaining by (metis mt.simps(5) less_imp_le)
next
  case Bol then show ?case using zero_width by blast
next
  case Wordb then show ?case using zero_width by blast
next
  case (Seq a b)
  from Seq.prems obtain s1 where "s1 \<in> set (mt a s)" "s' \<in> set (mt b s1)" by (rule seq_elim)
  then show ?case using Seq.IH le_trans by blast
next
  case (Alt a b)
  then show ?case using alt_elim by blast
next
  case (Star r)
  then have "s' \<in> set (star_iter (mt r) s)" by simp
  then show ?case
    by (rule star_iter_rel[where R = "\<lambda>s s'. remaining s' \<le> remaining s"]) (blast intro: Star.IH le_trans)+
next
  case (Plus r)
  from Plus.prems obtain s1 where s1: "s1 \<in> set (mt r s)" "s' \<in> set (star_iter (mt r) s1)"
    by (rule plus_elim)
  have "remaining s' \<le> remaining s1"
    using s1(2) by (rule star_iter_rel[where R = "\<lambda>s s'. remaining s' \<le> remaining s"])
      (blast intro: Plus.IH le_trans)+
  then show ?case using Plus.IH[OF s1(1)] by simp
next
  case (Opt r)
  then show ?case using opt_elim by blast
next
  case (Group i r)
  from Group.prems obtain p pv cs g p' pv' cs' g' where s: "s = (p, pv, cs, g)"
    and m: "(p', pv', cs', g') \<in> set (mt r s)" and s': "s' = (p', pv', cs', (i, p, p') # g')"
    by (rule group_elim)
  show ?case using Group.IH[OF m] by (simp add: s' remaining_def)
qed

lemma star_remaining_le: "s' \<in> set (star_iter (mt r) s) \<Longrightarrow> remaining s' \<le> remaining s"
  by (rule star_iter_rel[where R = "\<lambda>s s'. remaining s' \<le> remaining s"])
    (blast intro: mt_remaining_le le_trans)+

lemma mt_consumes: "consumes r \<Longrightarrow> s' \<in> set (mt r s) \<Longrightarrow> remaining s' < remaining s"
proof (induction r arbitrary: s s')
  case (Seq a b)
  from Seq.prems(2) obtain s1 where s1: "s1 \<in> set (mt a s)" "s' \<in> set (mt b s1)"
    by (rule seq_elim)
  from Seq.prems(1) have "consumes a \<or> consumes b" by simp
  then show ?case
  proof
    assume "consumes a"
    then have "remaining s1 < remaining s" using Seq.IH(1) s1(1) by blast
    then show ?thesis using mt_remaining_le[OF s1(2)] by simp
  next
    assume "consumes b"
    then have "remaining s' < remaining s1" using Seq.IH(2) s1(2) by blast
    then show ?thesis using mt_remaining_le[OF s1(1)] by simp
  qed
next
  case (Alt a b)
  from Alt.prems(1) have "consumes a" "consumes b" by simp_all
  then show ?case using Alt.IH alt_elim[OF Alt.prems(2)] by blast
next
  case (Plus r)
  from Plus.prems(2) obtain s1 where s1: "s1 \<in> set (mt r s)" "s' \<in> set (star_iter (mt r) s1)"
    by (rule plus_elim)
  have "remaining s' \<le> remaining s1" using s1(2) by (rule star_remaining_le)
  moreover have "remaining s1 < remaining s" using Plus.IH Plus.prems(1) s1(1) by simp
  ultimately show ?case by simp
next
  case (Group i r)
  from Group.prems(2) obtain p pv cs g p' pv' cs' g' where s: "s = (p, pv, cs, g)"
    and m: "(p', pv', cs', g') \<in> set (mt r s)" and s': "s' = (p', pv', cs', (i, p, p') # g')"
    by (rule group_elim)
  show ?case using Group.IH[OF _ m] Group.prems(1) by (simp add: s' remaining_def)
qed (simp_all add: one_remaining)

lemma mt_nogroups: "nogroups r \<Longrightarrow> s' \<in> set (mt r s) \<Longrightarrow> caps s' = caps s"
proof (induction r arbitrary: s s')
  case Eps then show ?case using zero_width by blast
next
  case Bol then show ?case using zero_width by blast
next
  case Wordb then show ?case using zero_width by blast
next
  case (Seq a b)
  from Seq.prems(2) obtain s1 where s1: "s1 \<in> set (mt a s)" "s' \<in> set (mt b s1)"
    by (rule seq_elim)
  from Seq.prems(1) have "nogroups a" "nogroups b" by simp_all
  then show ?case using Seq.IH(1)[OF _ s1(1)] Seq.IH(2)[OF _ s1(2)] by simp
next
  case (Alt a b)
  from Alt.prems(1) have "nogroups a" "nogroups b" by simp_all
  then show ?case using Alt.IH alt_elim[OF Alt.prems(2)] by blast
next
  case (Star r)
  then have m: "s' \<in> set (star_iter (mt r) s)" and n: "nogroups r" by simp_all
  show ?case using m
    by (rule star_iter_rel[where R = "\<lambda>s s'. caps s' = caps s"]) (simp_all add: Star.IH[OF n])
next
  case (Plus r)
  from Plus.prems(2) obtain s1 where s1: "s1 \<in> set (mt r s)" "s' \<in> set (star_iter (mt r) s1)"
    by (rule plus_elim)
  from Plus.prems(1) have n: "nogroups r" by simp
  have "caps s' = caps s1"
    using s1(2) by (rule star_iter_rel[where R = "\<lambda>s s'. caps s' = caps s"]) (simp_all add: Plus.IH[OF n])
  then show ?case using Plus.IH[OF n s1(1)] by simp
next
  case (Opt r)
  from Opt.prems(1) have "nogroups r" by simp
  then show ?case using Opt.IH opt_elim[OF Opt.prems(2)] by blast
qed (simp_all add: one_caps)

lemma group_state_at:
  assumes "nogroups r" "p \<le> length tx" "s' \<in> set (mt (Group i r) (state_at tx p g))"
  obtains c where "s' = state_at tx c ((i, p, c) # g)" "p \<le> c" "c \<le> length tx"
    "state_at tx c g \<in> set (mt r (state_at tx p g))"
proof -
  from assms(3) obtain p0 pv cs g0 p' pv' cs' g' where s: "state_at tx p g = (p0, pv, cs, g0)"
    and m: "(p', pv', cs', g') \<in> set (mt r (state_at tx p g))"
    and s': "s' = (p', pv', cs', (i, p0, p') # g')"
    by (rule group_elim)
  from s have p0: "p0 = p" by (simp add: state_at_def)
  from m assms(2) obtain c g1 where c: "(p', pv', cs', g') = state_at tx c g1" "p \<le> c" "c \<le> length tx"
    by (rule mt_state_at)
  have "caps (p', pv', cs', g') = caps (state_at tx p g)" using mt_nogroups[OF assms(1) m] .
  then have g1: "g1 = g" using c(1) by (simp add: caps_def state_at_def)
  have "s' = state_at tx c ((i, p, c) # g)" using s' c(1) g1 p0 by (simp add: state_at_def)
  moreover have "state_at tx c g \<in> set (mt r (state_at tx p g))" using m c(1) g1 by simp
  ultimately show thesis using that c by blast
qed

lemma map_of_skip:
  assumes "\<And>k se. (k, se) \<in> set new \<Longrightarrow> (i::nat) < k"
  shows "map_of (new @ (i, v) # g) i = Some v"
  using assms
proof (induction new)
  case Nil then show ?case by simp
next
  case (Cons x new)
  obtain k se where x: "x = (k, se)" by (cases x)
  have "i < k" using Cons.prems[of k se] x by simp
  moreover have "map_of (new @ (i, v) # g) i = Some v"
  proof (rule Cons.IH)
    fix k se assume "(k, se) \<in> set new"
    then show "i < k" using Cons.prems[of k se] by simp
  qed
  ultimately show ?case using x by auto
qed

lemma groups_decompose:
  assumes "group_bodies i R = Some bs" "p \<le> length tx" "s' \<in> set (mt R (state_at tx p g))"
  shows "\<exists>p' new cuts. s' = state_at tx p' (new @ g) \<and> p \<le> p' \<and> p' \<le> length tx
     \<and> (\<forall>(k, se) \<in> set new. i \<le> k) \<and> splits tx bs p cuts p'
     \<and> (\<forall>args. length args = length bs \<longrightarrow> bygroups args i tx (new @ g) = group_toks tx args p cuts)"
  using assms
proof (induction i R arbitrary: bs p g s' rule: group_bodies.induct)
  case (1 i j r)
  then have ji: "j = i" and n: "nogroups r" and bs: "bs = [r]" by (auto split: if_splits)
  from "1.prems"(3) obtain c where c: "s' = state_at tx c ((i, p, c) # g)" "p \<le> c" "c \<le> length tx"
    "state_at tx c g \<in> set (mt r (state_at tx p g))"
    unfolding ji using group_state_at[OF n "1.prems"(2)] by blast
  have toks: "\<forall>args. length args = length bs \<longrightarrow>
      bygroups args i tx ([(i, p, c)] @ g) = group_toks tx args p [c]"
  proof (intro allI impI)
    fix args :: "token_type list" assume "length args = length bs"
    then obtain a where "args = [a]" using bs by (cases args) auto
    then show "bygroups args i tx ([(i, p, c)] @ g) = group_toks tx args p [c]" by simp
  qed
  have "splits tx bs p [c] c" using c bs by auto
  then show ?case using c toks
    by (intro exI[of _ c] exI[of _ "[(i, p, c)]"] exI[of _ "[c]"]) simp
next
  case (2 i j r R)
  then have ji: "j = i" and n: "nogroups r" by (auto split: if_splits)
  from "2.prems"(1) ji n obtain bs' where bs': "group_bodies (Suc i) R = Some bs'" and bs: "bs = r # bs'"
    by auto
  from "2.prems"(3) obtain s1 where s1: "s1 \<in> set (mt (Group i r) (state_at tx p g))" "s' \<in> set (mt R s1)"
    unfolding ji by (rule seq_elim)
  from s1(1) obtain c where c: "s1 = state_at tx c ((i, p, c) # g)" "p \<le> c" "c \<le> length tx"
    "state_at tx c g \<in> set (mt r (state_at tx p g))"
    using group_state_at[OF n "2.prems"(2)] by blast
  have "\<exists>p' new cuts. s' = state_at tx p' (new @ (i, p, c) # g) \<and> c \<le> p' \<and> p' \<le> length tx
     \<and> (\<forall>(k, se) \<in> set new. Suc i \<le> k) \<and> splits tx bs' c cuts p'
     \<and> (\<forall>args. length args = length bs' \<longrightarrow>
           bygroups args (Suc i) tx (new @ (i, p, c) # g) = group_toks tx args c cuts)"
    using "2.IH"[OF _ bs' c(3), of s' "(i, p, c) # g"] ji n s1(2) c(1) by simp
  then obtain p' new cuts where r: "s' = state_at tx p' (new @ (i, p, c) # g)" "c \<le> p'" "p' \<le> length tx"
    "\<forall>(k, se) \<in> set new. Suc i \<le> k" "splits tx bs' c cuts p'"
    "\<forall>args. length args = length bs' \<longrightarrow>
           bygroups args (Suc i) tx (new @ (i, p, c) # g) = group_toks tx args c cuts"
    by blast
  have lookup: "map_of (new @ (i, p, c) # g) i = Some (p, c)"
  proof (rule map_of_skip)
    fix k se assume "(k, se) \<in> set new"
    then have "Suc i \<le> k" using r(4) by auto
    then show "i < k" by simp
  qed
  have toks: "\<forall>args. length args = length bs \<longrightarrow>
      bygroups args i tx ((new @ [(i, p, c)]) @ g) = group_toks tx args p (c # cuts)"
  proof (intro allI impI)
    fix args :: "token_type list" assume "length args = length bs"
    then obtain a args' where a: "args = a # args'" "length args' = length bs'"
      using bs by (cases args) auto
    show "bygroups args i tx ((new @ [(i, p, c)]) @ g) = group_toks tx args p (c # cuts)"
      using a r(6) lookup by simp
  qed
  have kys: "\<forall>(k, se) \<in> set (new @ [(i, p, c)]). i \<le> k" using r(4) by auto
  have spl: "splits tx bs p (c # cuts) p'" using bs c r(5) by auto
  show ?case using r(1,2,3) c(2) toks kys spl
    by (intro exI[of _ p'] exI[of _ "new @ [(i, p, c)]"] exI[of _ "c # cuts"]) simp
qed simp_all

lemma splits_le: "splits tx bs p cuts p' \<Longrightarrow> p \<le> p'"
  by (induction tx bs p cuts p' rule: splits.induct) auto

lemma slice_append:
  assumes "a \<le> b" "b \<le> c"
  shows "slice tx a b @ slice tx b c = slice tx a c"
proof -
  have d: "drop b tx = drop (b - a) (drop a tx)" using assms(1) by simp
  have e: "c - a = (b - a) + (c - b)" using assms by simp
  show ?thesis unfolding slice_def d e by (simp add: take_add)
qed

lemma group_toks_concat:
  "splits tx bs p cuts p' \<Longrightarrow> length args = length bs \<Longrightarrow>
     concat (map tok_text (group_toks tx args p cuts)) = slice tx p p'"
proof (induction tx bs p cuts p' arbitrary: args rule: splits.induct)
  case (1 tx p p')
  then show ?case by (simp add: slice_def)
next
  case (2 tx b bs p c cuts p')
  then obtain a args' where a: "args = a # args'" "length args' = length bs" by (cases args) auto
  from "2.prems" have spl: "splits tx bs c cuts p'" and le: "p \<le> c" by auto
  have "concat (map tok_text (group_toks tx args' c cuts)) = slice tx c p'"
    using "2.IH"[OF spl a(2)] .
  then show ?case using a slice_append[OF le splits_le[OF spl], of tx] by auto
qed simp_all

lemma first_match_state_at:
  "first_match rules tx pos = first_match_at rules (state_at tx pos [])"
  by (simp add: first_match_eq state_at_def)

lemma first_match_at_Some:
  "first_match_at rules st = Some (m, action, ops) \<Longrightarrow>
     \<exists>r s'. (r, action, ops) \<in> set rules \<and> s' \<in> set (mt r st) \<and> m = (fst s', caps s')"
proof (induction rules)
  case Nil then show ?case by simp
next
  case (Cons rl rules)
  obtain r a os where rl: "rl = (r, a, os)" by (cases rl)
  show ?case
  proof (cases "mt r st")
    case Nil
    then have "first_match_at rules st = Some (m, action, ops)" using Cons.prems rl by simp
    then obtain r' s' where "(r', action, ops) \<in> set rules" "s' \<in> set (mt r' st)" "m = (fst s', caps s')"
      using Cons.IH by blast
    then show ?thesis by (intro exI[of _ r'] exI[of _ s']) simp
  next
    case (Cons s' rest)
    obtain e pv cs g where s': "s' = (e, pv, cs, g)" by (cases s')
    from Cons.prems rl Cons s' have "m = (e, g)" "a = action" "os = ops" by simp_all
    moreover have "s' \<in> set (mt r st)" using Cons by simp
    ultimately show ?thesis using rl s' by (intro exI[of _ r] exI[of _ s']) (simp add: caps_def)
  qed
qed

lemma first_match_at_None:
  "first_match_at rules st = None \<Longrightarrow> (r, action, ops) \<in> set rules \<Longrightarrow> mt r st = []"
  by (induction rules) (auto split: list.splits)

lemma tiles_append: "tiles tx p ts q \<Longrightarrow> tiles tx q ts' r \<Longrightarrow> tiles tx p (ts @ ts') r"
  by (induction tx p ts q rule: tiles.induct) auto

lemma slice_length: "a \<le> b \<Longrightarrow> b \<le> length tx \<Longrightarrow> length (slice tx a b) = b - a"
  by (simp add: slice_def)

lemma slice_all: "slice tx 0 (length tx) = tx"
  by (simp add: slice_def)

lemma tiles_le: "tiles tx p ts p' \<Longrightarrow> p \<le> p'"
  by (induction tx p ts p' rule: tiles.induct) auto

lemma tiles_concat:
  "tiles tx p ts p' \<Longrightarrow> concat (map tok_text ts) = slice tx p p'"
proof (induction tx p ts p' rule: tiles.induct)
  case (1 tx p p') then show ?case by (simp add: slice_def)
next
  case (2 tx p i tt v ts p')
  then have t: "tiles tx (p + length v) ts p'" and v: "v = slice tx p (p + length v)" by auto
  have "concat (map tok_text ts) = slice tx (p + length v) p'" using "2.IH" "2.prems" by simp
  moreover have "slice tx p (p + length v) @ slice tx (p + length v) p' = slice tx p p'"
    using tiles_le[OF t] by (intro slice_append) auto
  ultimately show ?case using v by simp
qed

lemma group_toks_tiles:
  "splits tx bs p cuts p' \<Longrightarrow> length args = length bs \<Longrightarrow> p' \<le> length tx \<Longrightarrow>
     tiles tx p (group_toks tx args p cuts) p'"
proof (induction tx bs p cuts p' arbitrary: args rule: splits.induct)
  case (1 tx p p') then show ?case by simp
next
  case (2 tx b bs p c cuts p')
  then obtain a args' where a: "args = a # args'" "length args' = length bs" by (cases args) auto
  from "2.prems" have spl: "splits tx bs c cuts p'" and le: "p \<le> c" by auto
  have c: "c \<le> length tx" using splits_le[OF spl] "2.prems"(3) by simp
  have len: "length (slice tx p c) = c - p" using slice_length[OF le c] .
  have rest: "tiles tx c (group_toks tx args' c cuts) p'" using "2.IH"[OF spl a(2) "2.prems"(3)] .
  show ?case
  proof (cases "slice tx p c = []")
    case True
    then have "c = p" using len le by simp
    then show ?thesis using True rest a by simp
  next
    case False
    have "p + length (slice tx p c) = c" using len le by simp
    then show ?thesis using False rest a by simp
  qed
qed simp_all

lemma consumes_word_regex: "w \<noteq> [] \<Longrightarrow> consumes (word_regex w)"
  by (cases w; cases "tl w") (auto simp: word_regex_def)

lemma consumes_lit: "w \<noteq> [] \<Longrightarrow> consumes (lit w)"
  by (cases w; cases "tl w") (auto simp: lit_def)

lemma word_rules_ok: "[] \<notin> set ws \<Longrightarrow> list_all rule_ok (word_rules tt ws)"
  by (induction ws) (auto simp: word_rules_def rule_ok_def consumes_word_regex)

lemma symbol_rules_ok: "[] \<notin> set ws \<Longrightarrow> list_all rule_ok (symbol_rules tt ws)"
  by (induction ws) (auto simp: symbol_rules_def rule_ok_def consumes_lit)

lemmas rule_defs = strings_def comments_def multiline_comments_def labels_def procedures_def
  functions_rules_def aliases_def variables_def parameters_def numbers_def whitespace_def
  line_comment_def paren_to_paren_def paren_to_bracket_def bracket_to_paren_def
  string_body_def quoted_name_def plain_name_def dotted_name_def digit_def hexdigit_def
  times_def chars_def lit_def

lemma fixed_rules_ok:
  "list_all rule_ok strings" "list_all rule_ok comments" "list_all rule_ok multiline_comments"
  "list_all rule_ok labels" "list_all rule_ok procedures" "list_all rule_ok functions_rules"
  "list_all rule_ok aliases" "list_all rule_ok variables" "list_all rule_ok parameters"
  "list_all rule_ok numbers" "list_all rule_ok whitespace"
  by (simp_all add: rule_defs rule_ok_def eval_nat_numeral)

lemma table_rules_ok:
  "list_all rule_ok keywords_rules" "list_all rule_ok pseudo_keywords"
  "list_all rule_ok constants" "list_all rule_ok operators"
  by (simp_all add: keywords_rules_eq pseudo_keywords_eq constants_eq operators_eq
      word_rules_ok symbol_rules_ok sorted_keywords_def sorted_operator_words_def
      sorted_operator_symbols_def)

lemma tokens_ok: "list_all rule_ok (tokens s)"
  by (cases s)
    (simp_all add: fixed_rules_ok table_rules_ok expressions_def rule_ok_def
      paren_to_paren_def paren_to_bracket_def bracket_to_paren_def lit_def)

lemma rule_in_tokens_ok: "rl \<in> set (tokens s) \<Longrightarrow> rule_ok rl"
  using tokens_ok[of s] by (simp add: list_all_iff)

lemma remaining_state_at: "remaining (state_at tx p g) = length tx - p"
  by (simp add: remaining_def state_at_def)

lemma slice_one: "p < length tx \<Longrightarrow> slice tx p (p + 1) = [tx ! p]"
  by (simp add: slice_def take_Suc_conv_app_nth hd_drop_conv_nth take_Suc)

lemma lex_step_Finished:
  "lex_step tx pos stack = Finished \<Longrightarrow> pos \<le> length tx \<Longrightarrow> pos = length tx"
  by (auto simp: lex_step_def split: option.splits if_splits)

lemma matched_tiles:
  assumes pos: "pos \<le> length tx"
    and fm: "first_match (tokens s) tx pos = Some (m, action, ops)"
  shows "pos < fst m \<and> fst m \<le> length tx \<and> tiles tx pos (emit action tx pos m) (fst m)"
proof -
  from fm obtain r s' where r: "(r, action, ops) \<in> set (tokens s)"
    and s': "s' \<in> set (mt r (state_at tx pos []))" and m: "m = (fst s', caps s')"
    unfolding first_match_state_at using first_match_at_Some by blast
  have ok: "rule_ok (r, action, ops)" using rule_in_tokens_ok[OF r] .
  then have cons: "consumes r" by (simp add: rule_ok_def)
  from s' pos obtain e g where e: "s' = state_at tx e g" "pos \<le> e" "e \<le> length tx"
    by (rule mt_state_at)
  have "remaining s' < remaining (state_at tx pos [])" using mt_consumes[OF cons s'] .
  then have lt: "pos < e" using e by (simp add: remaining_state_at)
  have me: "m = (e, g)" using m e(1) by (simp add: state_at_def caps_def)
  show ?thesis
  proof (cases action)
    case (Tok tt)
    have "length (slice tx pos e) = e - pos" using slice_length[OF e(2,3)] .
    then have "slice tx pos e \<noteq> []" "pos + length (slice tx pos e) = e" using lt by auto
    then show ?thesis using Tok me lt e(3) by (simp add: emit_def)
  next
    case (Bygroups args)
    with ok obtain bs where bs: "group_bodies 1 r = Some bs" "length bs = length args"
      by (auto simp: rule_ok_def split: option.splits)
    from groups_decompose[OF bs(1) pos s'] obtain p' new cuts where
      d: "s' = state_at tx p' (new @ [])" "p' \<le> length tx" "splits tx bs pos cuts p'"
        "\<forall>args. length args = length bs \<longrightarrow> bygroups args 1 tx (new @ []) = group_toks tx args pos cuts"
      by blast
    from d(1) e(1) have pe: "p' = e" "g = new" by (simp_all add: state_at_def)
    have "bygroups args 1 tx g = group_toks tx args pos cuts" using d(4) bs(2) pe by simp
    moreover have "tiles tx pos (group_toks tx args pos cuts) e"
      using group_toks_tiles[OF d(3) _ d(2)] bs(2) pe by simp
    ultimately show ?thesis using Bygroups me lt e(3) by (simp add: emit_def)
  qed
qed

lemma lex_step_Emitted:
  assumes "pos \<le> length tx" "lex_step tx pos stack = Emitted toks pos' stack'"
  shows "pos < pos' \<and> pos' \<le> length tx \<and> tiles tx pos toks pos'"
proof (cases "first_match (tokens (last stack)) tx pos")
  case None
  with assms(2) have lt: "pos < length tx"
    by (auto simp: lex_step_def split: if_splits)
  with assms(2) None have "pos' = pos + 1" "\<exists>tt. toks = [(pos, tt, [tx ! pos])]"
    by (auto simp: lex_step_def split: if_splits)
  then show ?thesis using lt slice_one[OF lt] by auto
next
  case (Some x)
  obtain m action ops where x: "x = (m, action, ops)" by (cases x)
  from assms(2) Some x have "toks = emit action tx pos m" "pos' = fst m"
    by (simp_all add: lex_step_def)
  then show ?thesis using matched_tiles[OF assms(1)] Some x by simp
qed

lemma lex_loop_total:
  "pos \<le> length tx \<Longrightarrow>
     \<exists>rs. lex_loop tx pos stack = Some rs \<and> tiles tx pos (concat (map (fst \<circ> snd) rs)) (length tx)"
proof (induction "length tx - pos" arbitrary: pos stack rule: less_induct)
  case less
  show ?case
  proof (cases "lex_step tx pos stack")
    case Finished
    then have "pos = length tx" using lex_step_Finished less.prems by simp
    moreover have "lex_loop tx pos stack = Some []" using Finished by (subst lex_loop.simps) simp
    ultimately show ?thesis by simp
  next
    case (Emitted toks pos' stack')
    from lex_step_Emitted[OF less.prems Emitted]
    have s: "pos < pos'" "pos' \<le> length tx" "tiles tx pos toks pos'" by simp_all
    then have "length tx - pos' < length tx - pos" using less.prems by simp
    from less.hyps[OF this s(2), of stack'] obtain rs where
      rs: "lex_loop tx pos' stack' = Some rs" "tiles tx pos' (concat (map (fst \<circ> snd) rs)) (length tx)"
      by blast
    have "lex_loop tx pos stack = Some ((stack, toks, stack') # rs)"
      using Emitted rs(1) by (subst lex_loop.simps) simp
    moreover have "tiles tx pos (concat (map (fst \<circ> snd) ((stack, toks, stack') # rs))) (length tx)"
      using tiles_append[OF s(3) rs(2)] by simp
    ultimately show ?thesis by blast
  qed
qed

lemma tokens_total:
  "\<exists>toks. get_tokens_unprocessed tx = Some toks \<and> tiles tx 0 toks (length tx)"
  using lex_loop_total[of 0 tx "[Root]"] by (auto simp: get_tokens_unprocessed_def rounds_def)

lemma star_iter_self: "st \<in> set (star_iter f st)"
  by (subst star_iter.simps) simp

lemma plus_one_nonempty:
  assumes "mt r = one P" "P c"
  shows "mt (Plus r) (p, pv, c # cs, g) \<noteq> []"
  using assms star_iter_self[of "(Suc p, Some c, cs, g)" "one P"] by auto

lemma first_match_at_rule:
  "(r, action, ops) \<in> set rules \<Longrightarrow> mt r st \<noteq> [] \<Longrightarrow> first_match_at rules st \<noteq> None"
  using first_match_at_None by fastforce

lemma newline_rule:
  "\<exists>r action ops. (r, action, ops) \<in> set (tokens s) \<and> mt r (p, pv, newline # cs, g) \<noteq> []"
proof (cases "s = Multiline_Comments")
  case True
  have "cls_ok True (chars ''/*'') newline"
    by (simp add: cls_ok_def in_class_def chars_def newline_def lower_Char upper_Char)
  then have "mt (Plus (Cls True (chars ''/*''))) (p, pv, newline # cs, g) \<noteq> []"
    by (intro plus_one_nonempty[where P = "cls_ok True (chars ''/*'')"]) simp_all
  moreover have "(Plus (Cls True (chars ''/*'')), Tok Comment_Multiline, []) \<in> set (tokens s)"
    using True by (simp add: multiline_comments_def)
  ultimately show ?thesis by blast
next
  case False
  have "is_space newline" by (simp add: is_space_def newline_def)
  then have "mt (Plus Space) (p, pv, newline # cs, g) \<noteq> []"
    by (intro plus_one_nonempty[where P = is_space]) simp_all
  moreover have "(Plus Space, Tok Whitespace, []) \<in> set (tokens s)"
    using False by (cases s) (simp_all add: whitespace_def)
  ultimately show ?thesis by blast
qed

lemma drop_nth: "p < length tx \<Longrightarrow> drop p tx = tx ! p # drop (Suc p) tx"
  by (simp add: Cons_nth_drop_Suc)

lemma newline_matched:
  assumes "pos < length tx" "tx ! pos = newline"
  shows "first_match (tokens s) tx pos \<noteq> None"
proof -
  have st: "state_at tx pos [] = (pos, prev_char tx pos, newline # drop (Suc pos) tx, [])"
    using drop_nth[OF assms(1)] assms(2) by (simp add: state_at_def)
  obtain r action ops where "(r, action, ops) \<in> set (tokens s)"
    "mt r (state_at tx pos []) \<noteq> []"
    unfolding st using newline_rule by blast
  then show ?thesis unfolding first_match_state_at by (rule first_match_at_rule)
qed

lemma zero_width_same: "zero_width a \<Longrightarrow> s' \<in> set (mt a s) \<Longrightarrow> s' = s"
  unfolding zero_width_def using zero_width by blast

lemma cannot_start_sound: "cannot_start r c \<Longrightarrow> mt r (p, pv, c # cs, g) = []"
proof (induction r arbitrary: p pv cs g)
  case (Seq a b)
  from Seq.prems have "cannot_start a c \<or> (zero_width a \<and> cannot_start b c)" by simp
  then show ?case
  proof
    assume "cannot_start a c"
    then show ?thesis using Seq.IH(1) by simp
  next
    assume z: "zero_width a \<and> cannot_start b c"
    have "\<And>s1. s1 \<in> set (mt a (p, pv, c # cs, g)) \<Longrightarrow> mt b s1 = []"
      using zero_width_same z Seq.IH(2) by blast
    then show ?thesis by simp
  qed
qed simp_all

lemma slice_head:
  assumes "slice tx s e = c # rest"
  shows "\<exists>cs. drop s tx = c # cs"
proof (cases "drop s tx")
  case Nil then show ?thesis using assms by (simp add: slice_def)
next
  case (Cons x xs)
  then show ?thesis using assms by (cases "e - s") (simp_all add: slice_def)
qed

lemma no_match_at_char:
  assumes "cannot_start r c" "slice tx s e = c # rest"
  shows "mt r (state_at tx s g) = []"
proof -
  obtain cs where "drop s tx = c # cs" using slice_head[OF assms(2)] by blast
  then show ?thesis using cannot_start_sound[OF assms(1)] by (simp add: state_at_def)
qed

lemma group_toks_member:
  assumes "tok \<in> set (group_toks tx args q cuts)" "splits tx bs q cuts p'" "length args = length bs"
  shows "\<exists>k s e g. k < length bs \<and> tok = (s, args ! k, slice tx s e)
            \<and> state_at tx e g \<in> set (mt (bs ! k) (state_at tx s g))"
  using assms
proof (induction tx bs q cuts p' arbitrary: args rule: splits.induct)
  case (2 tx b bs p c cuts p')
  then obtain a args' where a: "args = a # args'" "length args' = length bs" by (cases args) auto
  from "2.prems"(2) obtain g where spl: "splits tx bs c cuts p'"
    and m: "state_at tx c g \<in> set (mt b (state_at tx p g))" by auto
  from "2.prems"(1) a have "tok = (p, a, slice tx p c) \<or> tok \<in> set (group_toks tx args' c cuts)"
    by (auto split: if_splits)
  then show ?case
  proof
    assume "tok = (p, a, slice tx p c)"
    then show ?thesis using m a by (intro exI[of _ 0] exI[of _ p] exI[of _ c] exI[of _ g]) simp
  next
    assume "tok \<in> set (group_toks tx args' c cuts)"
    from "2.IH"[OF this spl a(2)] obtain k s e g' where
      k: "k < length bs" "tok = (s, args' ! k, slice tx s e)"
        "state_at tx e g' \<in> set (mt (bs ! k) (state_at tx s g'))" by blast
    then show ?thesis using a
      by (intro exI[of _ "Suc k"] exI[of _ s] exI[of _ e] exI[of _ g']) simp
  qed
qed simp_all

lemma matched_no_separator:
  assumes pos: "pos \<le> length tx"
    and fm: "first_match (tokens s) tx pos = Some (m, action, ops)"
    and ns: "list_all no_separator (tokens s)"
    and tok: "tok \<in> set (emit action tx pos m)"
  shows "\<not> is_separator tok"
proof
  assume sep: "is_separator tok"
  from fm obtain r s' where r: "(r, action, ops) \<in> set (tokens s)"
    and s': "s' \<in> set (mt r (state_at tx pos []))" and m: "m = (fst s', caps s')"
    unfolding first_match_state_at using first_match_at_Some by blast
  have nr: "no_separator (r, action, ops)" using ns r by (simp add: list_all_iff)
  show False
  proof (cases action)
    case (Tok tt)
    with tok have t: "tok = (pos, tt, slice tx pos (fst m))" by (simp add: emit_def)
    with sep have "tt = Punctuation" "slice tx pos (fst m) = '';''" by (simp_all add: is_separator_def)
    moreover from nr Tok have "tt \<noteq> Punctuation \<or> cannot_start r CHR '';''" by (simp add: no_separator_def)
    ultimately have "mt r (state_at tx pos []) = []" using no_match_at_char by blast
    then show False using s' by simp
  next
    case (Bygroups args)
    with nr obtain bs where bs: "group_bodies 1 r = Some bs"
      and la: "list_all2 (\<lambda>a b. a \<noteq> Punctuation \<or> cannot_start b CHR '';'') args bs"
      by (auto simp: no_separator_def split: option.splits)
    have len: "length args = length bs" using la by (rule list_all2_lengthD)
    from groups_decompose[OF bs pos s'] obtain p' new cuts where
      d: "s' = state_at tx p' (new @ [])" "splits tx bs pos cuts p'"
        "\<forall>args. length args = length bs \<longrightarrow> bygroups args 1 tx (new @ []) = group_toks tx args pos cuts"
      by blast
    have "snd m = new" using m d(1) by (simp add: caps_def state_at_def)
    then have "emit action tx pos m = group_toks tx args pos cuts"
      using Bygroups d(3) len by (simp add: emit_def)
    with tok have "tok \<in> set (group_toks tx args pos cuts)" by simp
    from group_toks_member[OF this d(2) len] obtain k s e g where
      k: "k < length bs" "tok = (s, args ! k, slice tx s e)"
        "state_at tx e g \<in> set (mt (bs ! k) (state_at tx s g))" by blast
    from sep k(2) have "args ! k = Punctuation" "slice tx s e = '';''" by (simp_all add: is_separator_def)
    moreover have "args ! k \<noteq> Punctuation \<or> cannot_start (bs ! k) CHR '';''"
      using la k(1) len by (simp add: list_all2_conv_all_nth)
    ultimately have "mt (bs ! k) (state_at tx s g) = []" using no_match_at_char by blast
    then show False using k(3) by simp
  qed
qed

lemma word_rules_no_separator: "tt \<noteq> Punctuation \<Longrightarrow> list_all no_separator (word_rules tt ws)"
  by (induction ws) (auto simp: word_rules_def no_separator_def)

lemma symbol_rules_no_separator: "tt \<noteq> Punctuation \<Longrightarrow> list_all no_separator (symbol_rules tt ws)"
  by (induction ws) (auto simp: symbol_rules_def no_separator_def)

lemma fixed_no_separator:
  "list_all no_separator strings" "list_all no_separator comments"
  "list_all no_separator multiline_comments"
  "list_all no_separator labels" "list_all no_separator procedures" "list_all no_separator functions_rules"
  "list_all no_separator aliases" "list_all no_separator variables" "list_all no_separator parameters"
  "list_all no_separator numbers" "list_all no_separator whitespace"
  by (simp_all add: rule_defs no_separator_def lower_Char eval_nat_numeral)

lemma table_no_separator:
  "list_all no_separator keywords_rules" "list_all no_separator pseudo_keywords"
  "list_all no_separator constants" "list_all no_separator operators"
  by (simp_all add: keywords_rules_eq pseudo_keywords_eq constants_eq operators_eq
      word_rules_no_separator symbol_rules_no_separator)

lemma nonroot_no_separator: "s \<noteq> Root \<Longrightarrow> list_all no_separator (tokens s)"
  by (cases s)
    (simp_all add: fixed_no_separator table_no_separator expressions_def no_separator_def
      paren_to_paren_def paren_to_bracket_def bracket_to_paren_def lit_def lower_Char
      cls_ok_def in_class_def chars_def upper_Char)

lemma step_separator_root:
  assumes "pos \<le> length tx" "lex_step tx pos stack = Emitted toks pos' stack'"
    "tok \<in> set toks" "is_separator tok"
  shows "last stack = Root"
proof (rule ccontr)
  assume nr: "last stack \<noteq> Root"
  show False
  proof (cases "first_match (tokens (last stack)) tx pos")
    case None
    with assms(2) have "\<exists>tt v. toks = [(pos, tt, v)] \<and> tt \<noteq> Punctuation"
      by (auto simp: lex_step_def split: if_splits)
    then show False using assms(3,4) by (auto simp: is_separator_def)
  next
    case (Some x)
    obtain m action ops where x: "x = (m, action, ops)" by (cases x)
    from assms(2) Some x have "toks = emit action tx pos m" by (simp add: lex_step_def)
    then show False
      using matched_no_separator[OF assms(1) _ nonroot_no_separator[OF nr]] Some x assms(3,4) by blast
  qed
qed

lemma loop_separator_root:
  assumes "lex_loop tx pos stack = Some rs" "pos \<le> length tx"
    "(st, toks, st') \<in> set rs" "tok \<in> set toks" "is_separator tok"
  shows "last st = Root"
  using assms
proof (induction rs arbitrary: pos stack)
  case Nil then show ?case by simp
next
  case (Cons rd rs)
  from Cons.prems(1) obtain tk pos' stack' where
    step: "lex_step tx pos stack = Emitted tk pos' stack'"
    and rest: "lex_loop tx pos' stack' = Some rs" and rd: "rd = (stack, tk, stack')"
    by (subst (asm) lex_loop.simps) (auto split: step.splits Option.bind_splits)
  from Cons.prems(3) have "(st, toks, st') = rd \<or> (st, toks, st') \<in> set rs" by auto
  then show ?case
  proof
    assume "(st, toks, st') = rd"
    then show ?thesis using step_separator_root[OF Cons.prems(2) step] rd Cons.prems(4,5) by simp
  next
    assume "(st, toks, st') \<in> set rs"
    moreover have "pos' \<le> length tx" using lex_step_Emitted[OF Cons.prems(2) step] by simp
    ultimately show ?thesis using Cons.IH[OF rest] Cons.prems(4,5) by blast
  qed
qed

lemma rounds_total: "\<exists>rs. rounds tx = Some rs"
  using lex_loop_total[of 0 tx "[Root]"] by (auto simp: rounds_def)

lemma split_tokens_step:
  "\<not> is_separator tok \<Longrightarrow>
     split_tokens (tok # toks) fragments = split_tokens toks (fragments @ [tok_text tok])"
  by (cases tok) (auto simp: is_separator_def)

lemma split_tokens_chunks:
  "split_tokens toks fragments =
     filter (\<lambda>s. s \<noteq> []) (map strip (chunks_from toks (concat fragments)))"
proof (induction toks arbitrary: fragments)
  case Nil then show ?case by (simp add: Let_def)
next
  case (Cons tok toks)
  obtain i tt v where tok: "tok = (i, tt, v)" by (cases tok)
  show ?case
  proof (cases "is_separator tok")
    case True
    then have "tt = Punctuation \<and> v = '';''" using tok by (simp add: is_separator_def)
    then show ?thesis using True tok Cons.IH[of "[]"] by (simp add: Let_def)
  next
    case False
    then have "\<not> (tt = Punctuation \<and> v = '';'')" using tok by (simp add: is_separator_def)
    then show ?thesis using False tok Cons.IH[of "fragments @ [v]"] by auto
  qed
qed

lemma dropWhile_head: "dropWhile P xs = y # ys \<Longrightarrow> \<not> P y"
  by (induction xs) (auto split: if_splits)

lemma strip_idem: "strip (strip s) = strip s"
proof -
  define t where "t = dropWhile is_space s"
  define u where "u = dropWhile is_space (rev t)"
  have su: "strip s = rev u" by (simp add: strip_def t_def u_def)
  have u_head: "dropWhile is_space u = u"
    by (cases u) (use dropWhile_head[of is_space "rev t"] u_def in auto)
  have front: "dropWhile is_space (rev u) = rev u"
  proof (cases "rev u")
    case Nil then show ?thesis by simp
  next
    case (Cons x xs)
    have "\<exists>ws. rev t = ws @ u" unfolding u_def by (metis takeWhile_dropWhile_id)
    then obtain ws where "rev t = ws @ u" by blast
    then have "t = rev u @ rev ws" by (metis rev_append rev_rev_ident)
    then have "t = x # (xs @ rev ws)" using Cons by simp
    then have "\<not> is_space x" using dropWhile_head[of is_space s] t_def by metis
    then show ?thesis using Cons by simp
  qed
  have "strip (rev u) = rev (dropWhile is_space (rev (dropWhile is_space (rev u))))"
    by (simp add: strip_def)
  also have "\<dots> = rev u" using front u_head by simp
  finally show ?thesis using su by simp
qed

lemma strip_spaces:
  assumes "\<forall>ch \<in> set c. is_space ch"
  shows "strip c = []"
proof -
  have h: "dropWhile is_space c = []" using assms by (induction c) auto
  show ?thesis by (simp only: strip_def h rev.simps dropWhile.simps)
qed

lemma split_tokens_stripped:
  "s \<in> set (split_tokens toks fragments) \<Longrightarrow> s \<noteq> [] \<and> strip s = s"
  unfolding split_tokens_chunks using strip_idem by auto

lemma split_tokens_blank:
  "\<forall>c \<in> set (chunks toks). \<forall>ch \<in> set c. is_space ch \<Longrightarrow> split_tokens toks [] = []"
  unfolding split_tokens_chunks chunks_def using strip_spaces by (auto simp: filter_empty_conv)

lemma prefix_pairs_iff:
  "(a, b) \<in> set (prefix_pairs T) \<longleftrightarrow> a \<in> set T \<and> b \<in> set T \<and> is_strict_prefix a b"
  by (auto simp: prefix_pairs_def)

lemma prefix_pairs_keywords:
  "prefix_pairs cypher_keywords =
    [(''AS'', ''ASC''), (''AS'', ''ASCENDING''), (''AS'', ''ASSERT''), (''AS'', ''ASSERT EXISTS''),
     (''ASC'', ''ASCENDING''), (''ASSERT'', ''ASSERT EXISTS''), (''CREATE'', ''CREATE UNIQUE''),
     (''DESC'', ''DESCENDING''), (''GRAPH'', ''GRAPH AT''), (''GRAPH'', ''GRAPH OF''),
     (''LOAD'', ''LOAD CSV''), (''RETURN'', ''RETURN DISTINCT''), (''UNION'', ''UNION ALL''),
     (''WITH'', ''WITH DISTINCT''), (''WITH'', ''WITH HEADERS'')]"
  by (simp add: prefix_pairs_def cypher_keywords_def is_strict_prefix_def)

lemma prefix_pairs_operator_words:
  "prefix_pairs cypher_operator_words = [(''END'', ''ENDS WITH'')]"
  by (simp add: prefix_pairs_def cypher_operator_words_def is_strict_prefix_def)

lemma prefix_pairs_operator_symbols:
  "prefix_pairs cypher_operator_symbols =
    [(''+'', ''+=''), (''<'', ''<=''), (''<'', ''<>''), (''='', ''=~''), (''>'', ''>='')]"
  by (simp add: prefix_pairs_def cypher_operator_symbols_def is_strict_prefix_def)

lemma ball_pairs:
  "(\<forall>a \<in> set T. \<forall>b \<in> set T. is_strict_prefix a b \<longrightarrow> P a b) = (\<forall>(a, b) \<in> set (prefix_pairs T). P a b)"
  using prefix_pairs_iff by fast

section \<open>Line comments\<close>

lemma lower_slash: "(lower c = lower CHR ''/'') = (c = CHR ''/'')"
  by (cases c) (auto simp: lower_Char)

lemma lower_newline: "(lower c = lower newline) = (c = newline)"
  by (cases c) (auto simp: lower_Char newline_def)

lemma to_end_of_line:
  "newline \<notin> set l \<Longrightarrow>
     mt (Seq (Star Dot) (Lit newline)) (p, pv, l @ newline # more, g)
       = [(p + length l + 1, Some newline, more, g)]"
proof (induction l arbitrary: p pv)
  case Nil
  then show ?case by (simp add: star_one_Cons lower_newline)
next
  case (Cons c l)
  then have c: "c \<noteq> newline" and l: "newline \<notin> set l" by auto
  have "mt (Seq (Star Dot) (Lit newline)) (Suc p, Some c, l @ newline # more, g)
       = [(Suc p + length l + 1, Some newline, more, g)]" using Cons.IH[OF l] .
  then show ?case using c by (simp add: star_one_Cons lower_newline)
qed

lemma comment_tail_match:
  "newline \<notin> set l \<Longrightarrow>
     mt comment_tail (p, pv, l @ newline # more, g)
       = (if \<exists>l'. l = CHR ''/'' # CHR ''/'' # l' then [(p + length l + 1, Some newline, more, g)] else [])"
proof (cases l)
  case Nil
  then show ?thesis by (simp add: comment_tail_def lower_slash newline_def)
next
  case (Cons c l1)
  assume n: "newline \<notin> set l"
  show ?thesis
  proof (cases l1)
    case Nil
    then show ?thesis using Cons by (simp add: comment_tail_def lower_slash newline_def)
  next
    case (Cons d l2)
    have "newline \<notin> set l2" using n \<open>l = c # l1\<close> Cons by simp
    from to_end_of_line[OF this, of "Suc (Suc p)" "Some d" more g]
    show ?thesis using \<open>l = c # l1\<close> Cons by (auto simp: comment_tail_def lower_slash)
  qed
qed

lemma comment_body_match:
  "newline \<notin> set l \<Longrightarrow>
     mt (Seq (Star Dot) comment_tail) (p, pv, l @ newline # more, g)
       = replicate (slashes l) (p + length l + 1, Some newline, more, g)"
proof (induction l arbitrary: p pv)
  case Nil
  have "mt comment_tail (p, pv, [] @ newline # more, g) = []"
    by (subst comment_tail_match) simp_all
  then show ?case by (simp add: star_one_Cons)
next
  case (Cons c l)
  then have c: "c \<noteq> newline" and l: "newline \<notin> set l" by auto
  have here: "mt comment_tail (p, pv, (c # l) @ newline # more, g)
      = (if \<exists>l'. c # l = CHR ''/'' # CHR ''/'' # l' then [(p + length (c # l) + 1, Some newline, more, g)] else [])"
    using comment_tail_match[of "c # l" p pv more g] Cons.prems by blast
  have rest: "mt (Seq (Star Dot) comment_tail) (Suc p, Some c, l @ newline # more, g)
      = replicate (slashes l) (Suc p + length l + 1, Some newline, more, g)"
    using Cons.IH[OF l] .
  have count: "slashes (c # l) = slashes l + (if \<exists>l'. c # l = CHR ''/'' # CHR ''/'' # l' then 1 else 0)"
    by (cases l) auto
  have "mt (Seq (Star Dot) comment_tail) (p, pv, (c # l) @ newline # more, g)
      = mt (Seq (Star Dot) comment_tail) (Suc p, Some c, l @ newline # more, g)
        @ mt comment_tail (p, pv, (c # l) @ newline # more, g)"
    using c by (simp add: star_one_Cons)
  then show ?case unfolding here rest count by (simp add: replicate_add)
qed

lemma slashes_contains: "0 < slashes (l1 @ ''//'' @ l2)"
proof (induction l1)
  case Nil then show ?case by (cases l2) auto
next
  case (Cons c l1)
  then show ?case by (cases "l1 @ ''//'' @ l2") auto
qed

lemma line_comment_eq: "mt line_comment st = mt (Seq Bol (Seq (Star Dot) comment_tail)) st"
  by (simp add: line_comment_def comment_tail_def)

lemma line_comment_match:
  assumes "newline \<notin> set l" "pv = None \<or> pv = Some newline" "l = l1 @ ''//'' @ l2"
  shows "\<exists>tl. mt line_comment (p, pv, l @ newline # more, g)
           = (p + length l + 1, Some newline, more, g) # tl"
proof -
  have "mt line_comment (p, pv, l @ newline # more, g)
      = replicate (slashes l) (p + length l + 1, Some newline, more, g)"
    unfolding line_comment_eq using comment_body_match[OF assms(1)] assms(2) by auto
  moreover obtain n where "slashes l = Suc n" using slashes_contains[of l1 l2] assms(3)
    by (cases "slashes l") auto
  ultimately show ?thesis by simp
qed

lemma first_match_None_iff:
  "first_match rules tx pos = None \<longleftrightarrow> (\<forall>rl \<in> set rules. rexmatch (fst rl) tx pos = None)"
  by (induction rules) (auto split: option.splits)

lemma rexmatch_state_at:
  "rexmatch r tx pos = (case mt r (state_at tx pos []) of [] \<Rightarrow> None | s # _ \<Rightarrow> Some (fst s, caps s))"
  by (auto simp: rexmatch_def state_at_def caps_def split: list.splits)

lemma tokens_with_comments:
  "s \<noteq> Multiline_Comments \<Longrightarrow> \<exists>rest. tokens s = strings @ comment_rule # rest"
  by (cases s) (simp_all add: comments_def comment_rule_def)

lemma strings_not_comment: "rl \<in> set strings \<Longrightarrow> rl \<noteq> comment_rule"
  by (auto simp: strings_def comment_rule_def)

lemma multiline_not_comment: "rl \<in> set multiline_comments \<Longrightarrow> rl \<noteq> comment_rule"
  by (auto simp: multiline_comments_def comment_rule_def)

lemma earlier_rules:
  "takeWhile (\<lambda>rl. rl \<noteq> comment_rule) (tokens s)
     = (if s = Multiline_Comments then multiline_comments else strings)"
proof (cases "s = Multiline_Comments")
  case True
  then show ?thesis using multiline_not_comment by (simp add: takeWhile_eq_all_conv)
next
  case False
  then obtain rest where "tokens s = strings @ comment_rule # rest"
    using tokens_with_comments by blast
  then show ?thesis using False strings_not_comment by (simp add: takeWhile_append2)
qed

lemma state_at_line:
  assumes "before = [] \<or> last before = newline"
  shows "\<exists>pv. state_at (before @ rest) (length before) [] = (length before, pv, rest, [])
           \<and> (pv = None \<or> pv = Some newline)"
proof (cases before rule: rev_cases)
  case Nil then show ?thesis by (simp add: state_at_def prev_char_def)
next
  case (snoc bs b)
  then have "b = newline" using assms by simp
  then show ?thesis using snoc by (simp add: state_at_def prev_char_def nth_append)
qed

lemma block_comment_rule_matches:
  "\<exists>rl \<in> set multiline_comments. mt (fst rl) (p, pv, c # cs, g) \<noteq> []"
proof (cases "cls_ok False (chars ''/*'') c")
  case True
  then have "mt (Cls False (chars ''/*'')) (p, pv, c # cs, g) \<noteq> []" by simp
  then show ?thesis by (auto simp: multiline_comments_def)
next
  case False
  then have "cls_ok True (chars ''/*'') c" by (simp add: cls_ok_def)
  then have "mt (Plus (Cls True (chars ''/*''))) (p, pv, c # cs, g) \<noteq> []"
    by (intro plus_one_nonempty[where P = "cls_ok True (chars ''/*'')"]) simp_all
  then show ?thesis by (auto simp: multiline_comments_def)
qed

lemma slice_prefix: "slice (before @ xs @ ys) (length before) (length before + length xs) = xs"
  by (simp add: slice_def)

lemma line_comment_step:
  assumes start: "before = [] \<or> last before = newline"
    and line: "newline \<notin> set (l1 @ ''//'' @ l2)"
    and earlier: "\<forall>rl \<in> set (takeWhile (\<lambda>rl. rl \<noteq> comment_rule) (tokens (last statestack))).
          rexmatch (fst rl) (before @ l1 @ ''//'' @ l2 @ newline # more) (length before) = None"
  shows "lex_step (before @ l1 @ ''//'' @ l2 @ newline # more) (length before) statestack
          = Emitted [(length before, Comment_Single, l1 @ ''//'' @ l2 @ [newline])]
              (length before + length (l1 @ ''//'' @ l2 @ [newline])) statestack"
proof -
  define l where "l = l1 @ ''//'' @ l2"
  define tx where "tx = before @ l @ newline # more"
  define pos where "pos = length before"
  have tx: "before @ l1 @ ''//'' @ l2 @ newline # more = tx" by (simp add: tx_def l_def)
  obtain pv where st: "state_at tx pos [] = (pos, pv, l @ newline # more, [])"
    and pv: "pv = None \<or> pv = Some newline"
    unfolding tx_def pos_def using state_at_line[OF start] by blast
  obtain c cs where ccs: "l @ newline # more = c # cs" by (cases "l @ newline # more") auto
  have nl: "newline \<notin> set l" using line by (simp add: l_def)
  have notblock: "last statestack \<noteq> Multiline_Comments"
  proof
    assume m: "last statestack = Multiline_Comments"
    obtain rl where rl: "rl \<in> set multiline_comments" "mt (fst rl) (state_at tx pos []) \<noteq> []"
      unfolding st ccs using block_comment_rule_matches by blast
    have "rexmatch (fst rl) tx pos = None"
      using earlier rl(1) m unfolding tx pos_def[symmetric] earlier_rules by simp
    then show False using rl(2) by (auto simp: rexmatch_state_at split: list.splits)
  qed
  then obtain rest where toks: "tokens (last statestack) = strings @ comment_rule # rest"
    using tokens_with_comments by blast
  have "first_match strings tx pos = None"
    using earlier notblock unfolding tx pos_def[symmetric] earlier_rules first_match_None_iff by simp
  then have s0: "first_match_at strings (state_at tx pos []) = None"
    by (simp add: first_match_state_at)
  obtain tl where m: "mt line_comment (pos, pv, l @ newline # more, [])
      = (pos + length l + 1, Some newline, more, []) # tl"
    using line_comment_match[OF nl pv l_def] by blast
  have fm: "first_match (tokens (last statestack)) tx pos
      = Some ((pos + length l + 1, []), Tok Comment_Single, [])"
    unfolding first_match_state_at toks first_match_at_append s0
    by (simp add: comment_rule_def st m)
  have sl: "slice tx pos (Suc (pos + length l)) = l @ [newline]"
    using slice_prefix[of before "l @ [newline]" more] by (simp add: tx_def pos_def del: slice_prefix)
  have "lex_step tx pos statestack
      = Emitted [(pos, Comment_Single, l @ [newline])] (pos + length l + 1) statestack"
    by (simp add: lex_step_def fm emit_def sl)
  then show ?thesis unfolding tx by (simp add: pos_def l_def)
qed

section \<open>A keyword of two words\<close>

lemma star_one_suffix:
  "(p', pv', cs', g') \<in> set (star_iter (one P) (p, pv, cs, g)) \<Longrightarrow> set cs' \<subseteq> set cs"
proof (induction cs arbitrary: p pv)
  case Nil then show ?case by (simp add: star_one_Nil)
next
  case (Cons c cs)
  show ?case
  proof (cases "P c")
    case True
    then have "(p', pv', cs', g') \<in> set (star_iter (one P) (Suc p, Some c, cs, g)) \<or> cs' = c # cs"
      using Cons.prems by (auto simp: star_one_Cons)
    then show ?thesis using Cons.IH by auto
  next
    case False
    then show ?thesis using Cons.prems by (simp add: star_one_Cons)
  qed
qed

lemma no_slash_no_comment:
  assumes "CHR ''/'' \<notin> set cs"
  shows "mt line_comment (p, pv, cs, g) = []"
proof -
  have "mt (seq [Lit CHR ''/'', Lit CHR ''/'', Star Dot, Lit newline]) s = []"
    if "s \<in> set (star_iter (one (\<lambda>c. c \<noteq> newline)) (p, pv, cs, g))" for s
  proof -
    obtain p' pv' cs' g' where s: "s = (p', pv', cs', g')" by (cases s) auto
    then have "set cs' \<subseteq> set cs" using that star_one_suffix by blast
    then have "CHR ''/'' \<notin> set cs'" using assms by auto
    then show ?thesis unfolding s by (cases cs') (auto simp: lower_slash)
  qed
  then have "mt (seq [Star Dot, Lit CHR ''/'', Lit CHR ''/'', Star Dot, Lit newline]) (p, pv, cs, g) = []"
    by simp
  then show ?thesis by (simp add: line_comment_def)
qed

lemma no_slash_no_match:
  assumes "CHR ''/'' \<notin> set tx"
  shows "rexmatch line_comment tx pos = None"
proof -
  have "CHR ''/'' \<notin> set (drop pos tx)" using assms set_drop_subset by fastforce
  then have "mt line_comment (pos, prev_char tx pos, drop pos tx, []) = []"
    by (rule no_slash_no_comment)
  then show ?thesis by (simp add: rexmatch_def)
qed

lemma star_run_head:
  assumes "\<forall>c \<in> set ws. P c" "rest = [] \<or> \<not> P (hd rest)"
  shows "\<exists>tl. star_iter (one P) (p, pv, ws @ rest, g)
           = (p + length ws, (if ws = [] then pv else Some (last ws)), rest, g) # tl"
  using assms(1)
proof (induction ws arbitrary: p pv)
  case Nil
  then show ?case using assms(2) by (cases rest) (simp_all add: star_one_Nil star_one_Cons)
next
  case (Cons c ws)
  then have c: "P c" and ws: "\<forall>c \<in> set ws. P c" by auto
  obtain tl where "star_iter (one P) (Suc p, Some c, ws @ rest, g)
           = (Suc p + length ws, (if ws = [] then Some c else Some (last ws)), rest, g) # tl"
    using Cons.IH[OF ws, of "Suc p" "Some c"] by blast
  then show ?case using c by (simp add: star_one_Cons)
qed

lemma plus_space_run:
  assumes "ws \<noteq> []" "\<forall>c \<in> set ws. is_space c" "rest = [] \<or> \<not> is_space (hd rest)"
  shows "\<exists>tl. mt (Plus Space) (p, pv, ws @ rest, g) = (p + length ws, Some (last ws), rest, g) # tl"
proof -
  obtain w ws' where ws: "ws = w # ws'" using assms(1) by (cases ws) auto
  then have w: "is_space w" and ws': "\<forall>c \<in> set ws'. is_space c" using assms(2) by auto
  obtain tl where "star_iter (one is_space) (Suc p, Some w, ws' @ rest, g)
           = (Suc p + length ws', (if ws' = [] then Some w else Some (last ws')), rest, g) # tl"
    using star_run_head[OF ws' assms(3), of "Suc p" "Some w" g] by blast
  then show ?thesis using w by (simp add: ws)
qed

lemma create_unique_match:
  assumes "ws \<noteq> []" "\<forall>c \<in> set ws. is_space c" "more = [] \<or> \<not> is_word (hd more)"
  shows "\<exists>tl. mt (word_regex ''CREATE UNIQUE'') (p, pv, ''CREATE'' @ ws @ ''UNIQUE'' @ more, g)
           = (p + length (''CREATE'' @ ws @ ''UNIQUE''), Some CHR ''E'', more, g) # tl"
proof -
  have u: "''UNIQUE'' @ more = [] \<or> \<not> is_space (hd (''UNIQUE'' @ more))"
    by (simp add: is_space_def)
  obtain tl where sp: "mt (Plus Space) (p + 6, Some CHR ''E'', ws @ ''UNIQUE'' @ more, g)
      = (p + 6 + length ws, Some (last ws), ''UNIQUE'' @ more, g) # tl"
    using plus_space_run[OF assms(1,2) u] by blast
  have boundary: "word_before (Some CHR ''E'') \<noteq> word_after more"
    using assms(3) by (cases more) (simp_all add: word_before_def word_after_def is_word_def char_le_bits)
  have tail: "mt (word_regex ''UNIQUE'') (p + 6 + length ws, Some (last ws), ''UNIQUE'' @ more, g)
      = [(p + 6 + length ws + 6, Some CHR ''E'', more, g)]"
    using boundary by (simp add: word_regex_lit_Cons word_regex_Nil lower_Char)
  have "mt (word_regex ''CREATE UNIQUE'') (p, pv, ''CREATE'' @ ws @ ''UNIQUE'' @ more, g)
      = concat (map (mt (word_regex ''UNIQUE'')) (mt (Plus Space) (p + 6, Some CHR ''E'', ws @ ''UNIQUE'' @ more, g)))"
    by (simp add: word_regex_lit_Cons word_regex_space lower_Char eval_nat_numeral)
  also have "\<dots> = concat (map (mt (word_regex ''UNIQUE''))
      ((p + 6 + length ws, Some (last ws), ''UNIQUE'' @ more, g) # tl))"
    by (simp only: sp)
  also have "\<dots> = (p + 6 + length ws + 6, Some CHR ''E'', more, g) # concat (map (mt (word_regex ''UNIQUE'')) tl)"
    by (simp only: list.map concat.simps tail) simp
  finally show ?thesis by simp
qed

lemma before_create_unique:
  "first_match_at strings (p, pv, CHR ''C'' # CHR ''R'' # cs, g) = None"
  "mt (lit ''/*'') (p, pv, CHR ''C'' # CHR ''R'' # cs, g) = []"
  "first_match_at (word_rules Keyword (takeWhile (\<lambda>w. w \<noteq> ''CREATE UNIQUE'') sorted_keywords))
      (p, pv, CHR ''C'' # CHR ''R'' # cs, g) = None"
  by (simp_all add: strings_def sorted_keywords_def word_rules_Cons word_rules_Nil word_regex_lit_Cons
      lit_Cons lower_Char squote_def dquote_def)

lemma keywords_split:
  "sorted_keywords = takeWhile (\<lambda>w. w \<noteq> ''CREATE UNIQUE'') sorted_keywords
      @ ''CREATE UNIQUE'' # tl (dropWhile (\<lambda>w. w \<noteq> ''CREATE UNIQUE'') sorted_keywords)"
  by (simp add: sorted_keywords_def)

lemma word_rules_append: "word_rules tt (xs @ ys) = word_rules tt xs @ word_rules tt ys"
  by (simp add: word_rules_def)

lemma state_at_append:
  "state_at (before @ rest) (length before) []
     = (length before, (if before = [] then None else Some (last before)), rest, [])"
  by (cases before rule: rev_cases) (simp_all add: state_at_def prev_char_def nth_append)

lemma keyword_state:
  "s = Root \<or> s = In_Paren \<Longrightarrow> \<exists>rest. tokens s = strings @ comments @ keywords_rules @ rest"
  by auto

lemma create_unique_step:
  assumes ws: "ws \<noteq> []" "\<forall>c \<in> set ws. is_space c"
    and more: "more = [] \<or> \<not> is_word (hd more)"
    and top: "last statestack = Root \<or> last statestack = In_Paren"
    and nocomment: "rexmatch line_comment (before @ ''CREATE'' @ ws @ ''UNIQUE'' @ more) (length before) = None"
  shows "lex_step (before @ ''CREATE'' @ ws @ ''UNIQUE'' @ more) (length before) statestack
          = Emitted [(length before, Keyword, ''CREATE'' @ ws @ ''UNIQUE'')]
              (length before + length (''CREATE'' @ ws @ ''UNIQUE'')) statestack"
proof -
  define kw where "kw = ''CREATE'' @ ws @ ''UNIQUE''"
  define tx where "tx = before @ kw @ more"
  define pos where "pos = length before"
  define pv where "pv = (if before = [] then None else Some (last before))"
  define st where "st = (pos, pv, kw @ more, []::captures)"
  have tx: "before @ ''CREATE'' @ ws @ ''UNIQUE'' @ more = tx" by (simp add: tx_def kw_def)
  have st: "state_at tx pos [] = st"
    unfolding tx_def pos_def st_def pv_def by (rule state_at_append)
  have cr: "kw @ more = CHR ''C'' # CHR ''R'' # ''EATE'' @ ws @ ''UNIQUE'' @ more" by (simp add: kw_def)
  obtain rest where toks: "tokens (last statestack) = strings @ comments @ keywords_rules @ rest"
    using keyword_state[OF top] by blast
  have c: "mt line_comment st = []"
    using nocomment unfolding tx st[symmetric] pos_def[symmetric]
    by (auto simp: rexmatch_state_at split: list.splits)
  have s0: "first_match_at strings st = None"
    unfolding st_def cr by (rule before_create_unique(1))
  have s1: "first_match_at comments st = None"
    using c before_create_unique(2)[of pos pv "''EATE'' @ ws @ ''UNIQUE'' @ more" "[]"]
    unfolding st_def cr by (simp add: comments_def)
  have s2: "first_match_at (word_rules Keyword (takeWhile (\<lambda>w. w \<noteq> ''CREATE UNIQUE'') sorted_keywords)) st = None"
    unfolding st_def cr by (rule before_create_unique(3))
  obtain tl where m: "mt (word_regex ''CREATE UNIQUE'') st = (pos + length kw, Some CHR ''E'', more, []) # tl"
    using create_unique_match[OF ws more, of pos pv "[]"] unfolding st_def kw_def by auto
  have k: "first_match_at keywords_rules st = Some ((pos + length kw, []), Tok Keyword, [])"
    unfolding keywords_rules_eq
    by (subst keywords_split) (simp only: word_rules_append first_match_at_append s2 option.case word_rules_Cons m list.case prod.case)
  have fm: "first_match (tokens (last statestack)) tx pos = Some ((pos + length kw, []), Tok Keyword, [])"
    unfolding first_match_state_at st toks
    by (simp only: first_match_at_append s0 s1 k option.case)
  have sl: "slice tx pos (pos + length kw) = kw"
    unfolding tx_def pos_def by (rule slice_prefix)
  have "lex_step tx pos statestack = Emitted [(pos, Keyword, kw)] (pos + length kw) statestack"
    by (simp add: lex_step_def fm emit_def sl)
  then show ?thesis unfolding tx by (simp add: pos_def kw_def)
qed

lemma create_unique_tokens:
  assumes ws: "ws \<noteq> []" "\<forall>c \<in> set ws. is_space c"
    and more: "more = [] \<or> \<not> is_word (hd more)"
    and nocomment: "rexmatch line_comment (''CREATE'' @ ws @ ''UNIQUE'' @ more) 0 = None"
  shows "\<exists>rest. get_tokens_unprocessed (''CREATE'' @ ws @ ''UNIQUE'' @ more)
            = Some ((0, Keyword, ''CREATE'' @ ws @ ''UNIQUE'') # rest)
          \<and> concat (map tok_text rest) = more"
proof -
  define kw where "kw = ''CREATE'' @ ws @ ''UNIQUE''"
  define tx where "tx = kw @ more"
  have tx: "''CREATE'' @ ws @ ''UNIQUE'' @ more = tx" by (simp add: tx_def kw_def)
  have "lex_step ([] @ ''CREATE'' @ ws @ ''UNIQUE'' @ more) (length ([]::string)) [Root]
          = Emitted [(length ([]::string), Keyword, ''CREATE'' @ ws @ ''UNIQUE'')]
              (length ([]::string) + length (''CREATE'' @ ws @ ''UNIQUE'')) [Root]"
    by (rule create_unique_step[OF ws more]) (use nocomment in simp_all)
  then have step: "lex_step tx 0 [Root] = Emitted [(0, Keyword, kw)] (length kw) [Root]"
    by (simp add: tx_def kw_def)
  obtain rs where rs: "lex_loop tx (length kw) [Root] = Some rs"
    and tiles: "tiles tx (length kw) (concat (map (fst \<circ> snd) rs)) (length tx)"
    using lex_loop_total[of "length kw" tx "[Root]"] by (auto simp: tx_def)
  have "lex_loop tx 0 [Root] = Some (([Root], [(0, Keyword, kw)], [Root]) # rs)"
    by (subst lex_loop.simps) (simp add: step rs)
  then have "get_tokens_unprocessed tx = Some ((0, Keyword, kw) # concat (map (fst \<circ> snd) rs))"
    by (simp add: get_tokens_unprocessed_def rounds_def)
  moreover have "concat (map tok_text (concat (map (fst \<circ> snd) rs))) = more"
    using tiles_concat[OF tiles] by (simp add: slice_def tx_def)
  ultimately show ?thesis unfolding tx kw_def by blast
qed

section \<open>Statement splitting on two statements\<close>

text \<open>
  C2.  For the text \<^verbatim>\<open>MATCH (n) RETURN n; MATCH (m) RETURN m;\<close>, \<^verbatim>\<open>get_statements\<close> yields
  exactly the two statements \<^verbatim>\<open>MATCH (n) RETURN n\<close> and \<^verbatim>\<open>MATCH (m) RETURN m\<close>, in that
  order; the terminator at the end yields no empty statement after them.
\<close>

theorem statement_splitting:
  "get_statements ''MATCH (n) RETURN n; MATCH (m) RETURN m;'' =
     Some [''MATCH (n) RETURN n'', ''MATCH (m) RETURN m'']"
  by (simp only: lex_eval cong: lex_cong)

section \<open>Total coverage\<close>

text \<open>
  C1.  For every text, one pass of the tokenizer returns, and the texts of the tokens it
  yields, concatenated in order, are the text itself: the tokens lie end to end from
  offset 0 to the end of the text, each at the offset it reports and none empty, so every
  character is consumed exactly once, by a rule that matched or by the one-character
  fallback.
\<close>

theorem total_coverage:
  "\<exists>toks. get_tokens_unprocessed tx = Some toks \<and> tiles tx 0 toks (length tx)
     \<and> concat (map tok_text toks) = tx"
proof -
  obtain toks where t: "get_tokens_unprocessed tx = Some toks" "tiles tx 0 toks (length tx)"
    using tokens_total by blast
  have "concat (map tok_text toks) = tx" using tiles_concat[OF t(2)] by (simp add: slice_all)
  then show ?thesis using t by blast
qed

section \<open>Totality and the error fallback\<close>

text \<open>
  C9.  For every text the tokenizer returns a token list: no round of the loop can fail, and
  the loop ends.  Whenever no rule of the current state matches at an offset inside the
  text, the round yields exactly one \<open>Error\<close> token holding the character at that
  offset, moves the offset forward by one and leaves the stack as it is.  (The driver's
  other fallback, for a newline that no rule matches, is never taken by this lexer: in
  every state some rule matches a newline.)
\<close>

theorem total_with_error_fallback:
  "(\<exists>toks. get_tokens_unprocessed tx = Some toks) \<and>
   (\<forall>pos statestack. pos < length tx \<and> first_match (tokens (last statestack)) tx pos = None \<longrightarrow>
      lex_step tx pos statestack = Emitted [(pos, Error, [tx ! pos])] (pos + 1) statestack)"
proof (intro conjI allI impI)
  show "\<exists>toks. get_tokens_unprocessed tx = Some toks" using tokens_total by blast
next
  fix pos statestack
  assume a: "pos < length tx \<and> first_match (tokens (last statestack)) tx pos = None"
  then have "tx ! pos \<noteq> newline" using newline_matched by blast
  then show "lex_step tx pos statestack = Emitted [(pos, Error, [tx ! pos])] (pos + 1) statestack"
    using a by (simp add: lex_step_def)
qed

theorem total_with_error_fallback_witness:
  "(\<exists>toks. get_tokens_unprocessed ''?'' = Some toks) \<and>
   lex_step ''?'' 0 [Root] = Emitted [(0, Error, ''?'')] 1 [Root]"
proof -
  have h: "first_match (tokens (last [Root])) ''?'' 0 = None"
    by (simp only: lex_eval cong: lex_cong)
  show ?thesis using total_with_error_fallback[of "''?''"] h by simp
qed

section \<open>Semicolons inside strings and brackets\<close>

text \<open>
  C7.  For every text, a token at which \<^verbatim>\<open>get_statements\<close> ends a statement (a
  \<open>Punctuation\<close> token with the text \<^verbatim>\<open>;\<close>) is only ever yielded in a round that starts
  with the state \<^verbatim>\<open>root\<close> on top of the stack: in the paren, bracket and brace states
  and inside block comments no rule yields one.  A token of type \<open>String\<close> is never a
  separator, whatever its text holds, and a token that is no separator is appended to
  the statement being collected.  In particular \<^verbatim>\<open>RETURN "a;b"\<close> is one statement.
\<close>

theorem semicolon_inside_not_boundary:
  "(\<exists>rs. rounds tx = Some rs \<and>
      (\<forall>(statestack, toks, statestack') \<in> set rs. \<forall>tok \<in> set toks.
          is_separator tok \<longrightarrow> last statestack = Root))
   \<and> (\<forall>index val. \<not> is_separator (index, String, val))
   \<and> (\<forall>tok toks fragments. \<not> is_separator tok \<longrightarrow>
         split_tokens (tok # toks) fragments = split_tokens toks (fragments @ [tok_text tok]))
   \<and> get_statements (''RETURN '' @ [dquote] @ ''a;b'' @ [dquote])
       = Some [''RETURN '' @ [dquote] @ ''a;b'' @ [dquote]]"
proof (intro conjI)
  obtain rs where rs: "rounds tx = Some rs" using rounds_total by blast
  then have "\<forall>(statestack, toks, statestack') \<in> set rs. \<forall>tok \<in> set toks.
          is_separator tok \<longrightarrow> last statestack = Root"
    using loop_separator_root[of tx 0 "[Root]" rs] by (auto simp: rounds_def)
  then show "\<exists>rs. rounds tx = Some rs \<and>
      (\<forall>(statestack, toks, statestack') \<in> set rs. \<forall>tok \<in> set toks.
          is_separator tok \<longrightarrow> last statestack = Root)" using rs by blast
next
  show "\<forall>index val. \<not> is_separator (index, String, val)" by (simp add: is_separator_def)
next
  show "\<forall>tok toks fragments. \<not> is_separator tok \<longrightarrow>
         split_tokens (tok # toks) fragments = split_tokens toks (fragments @ [tok_text tok])"
    using split_tokens_step by blast
next
  show "get_statements (''RETURN '' @ [dquote] @ ''a;b'' @ [dquote])
       = Some [''RETURN '' @ [dquote] @ ''a;b'' @ [dquote]]"
    by (simp only: lex_eval cong: lex_cong)
qed

theorem semicolon_inside_not_boundary_witness:
  "rounds ''a;b'' = Some [([Root], [(0, Name_Variable, ''a'')], [Root]),
                          ([Root], [(1, Punctuation, '';'')], [Root]),
                          ([Root], [(2, Name_Variable, ''b'')], [Root])]
   \<and> is_separator (1, Punctuation, '';'') \<and> last [Root] = Root
   \<and> \<not> is_separator (0, Name_Variable, ''a'')
   \<and> split_tokens [(0, Name_Variable, ''a'')] [] = split_tokens [] [''a'']"
proof -
  have r: "rounds ''a;b'' = Some [([Root], [(0, Name_Variable, ''a'')], [Root]),
                          ([Root], [(1, Punctuation, '';'')], [Root]),
                          ([Root], [(2, Name_Variable, ''b'')], [Root])]"
    apply (simp only: lex_eval cong: lex_cong)
    apply simp
    done
  have s: "is_separator (1, Punctuation, '';'')" "\<not> is_separator (0, Name_Variable, ''a'')"
    by (simp_all add: is_separator_def)
  from semicolon_inside_not_boundary[of "''a;b''"] r s
  have "last [Root] = Root"
    and "split_tokens [(0, Name_Variable, ''a'')] [] = split_tokens [] ([] @ [tok_text (0, Name_Variable, ''a'')])"
    by auto
  then show ?thesis using r s by simp
qed

section \<open>Statements are trimmed and not empty\<close>

text \<open>
  C8.  For every text \<^verbatim>\<open>get_statements\<close> returns, and every statement it yields is
  not empty and equals its own \<^verbatim>\<open>strip()\<close>.  When every chunk of token text between
  separators consists of whitespace only (or of nothing), no statement is yielded; the
  text \<^verbatim>\<open>;;  ;\<close> yields none.
\<close>

theorem statements_trimmed_nonempty:
  "(\<exists>toks stmts. get_tokens_unprocessed tx = Some toks \<and> get_statements tx = Some stmts
      \<and> (\<forall>s \<in> set stmts. s \<noteq> [] \<and> strip s = s)
      \<and> ((\<forall>c \<in> set (chunks toks). \<forall>ch \<in> set c. is_space ch) \<longrightarrow> stmts = []))
   \<and> get_statements '';;  ;'' = Some []"
proof
  obtain toks where t: "get_tokens_unprocessed tx = Some toks" using tokens_total by blast
  then have g: "get_statements tx = Some (split_tokens toks [])" by (simp add: get_statements_def)
  have "\<forall>s \<in> set (split_tokens toks []). s \<noteq> [] \<and> strip s = s"
    using split_tokens_stripped by blast
  moreover have "(\<forall>c \<in> set (chunks toks). \<forall>ch \<in> set c. is_space ch) \<longrightarrow> split_tokens toks [] = []"
    using split_tokens_blank by blast
  ultimately show "\<exists>toks stmts. get_tokens_unprocessed tx = Some toks \<and> get_statements tx = Some stmts
      \<and> (\<forall>s \<in> set stmts. s \<noteq> [] \<and> strip s = s)
      \<and> ((\<forall>c \<in> set (chunks toks). \<forall>ch \<in> set c. is_space ch) \<longrightarrow> stmts = [])"
    using t g by blast
next
  show "get_statements '';;  ;'' = Some []"
    by (simp only: lex_eval cong: lex_cong)
qed

theorem statements_trimmed_nonempty_witness:
  "get_statements '' a ; b '' = Some [''a'', ''b''] \<and> strip ''a'' = ''a'' \<and> strip ''b'' = ''b''
   \<and> get_statements '' ; '' = Some []"
proof -
  have a: "get_tokens_unprocessed '' a ; b '' =
      Some [(0, Whitespace, '' ''), (1, Name_Variable, ''a''), (2, Whitespace, '' ''),
            (3, Punctuation, '';''), (4, Whitespace, '' ''), (5, Name_Variable, ''b''),
            (6, Whitespace, '' '')]"
    apply (simp only: lex_eval cong: lex_cong)
    apply simp
    done
  have a': "get_statements '' a ; b '' = Some [''a'', ''b'']"
    by (simp only: lex_eval cong: lex_cong)
  have b: "get_tokens_unprocessed '' ; '' =
      Some [(0, Whitespace, '' ''), (1, Punctuation, '';''), (2, Whitespace, '' '')]"
    apply (simp only: lex_eval cong: lex_cong)
    apply simp
    done
  have c: "\<forall>c \<in> set (chunks [(0, Whitespace, '' ''), (1, Punctuation, '';''), (2, Whitespace, '' '')]).
             \<forall>ch \<in> set c. is_space ch"
    by (simp add: chunks_def is_separator_def is_space_def)
  from statements_trimmed_nonempty[of "'' a ; b ''"] a a'
  have "strip ''a'' = ''a'' \<and> strip ''b'' = ''b''" by auto
  moreover from statements_trimmed_nonempty[of "'' ; ''"] b c
  have "get_statements '' ; '' = Some []" by auto
  ultimately show ?thesis using a' by simp
qed

section \<open>The order of the compiled rules\<close>

text \<open>
  C3.  The claim that the rule of the longer literal always comes before the rule of its
  strict prefix does not hold: the lists are sorted by the pattern texts, in which the
  shorter literal is followed by \<^verbatim>\<open>\b\<close>, and a backslash sorts above every upper-case
  letter.  So the rule for \<^verbatim>\<open>ASC\<close> comes before the rule for \<^verbatim>\<open>ASCENDING\<close>.
\<close>

theorem longer_first_counterexample:
  "''ASC'' \<in> set cypher_keywords \<and> ''ASCENDING'' \<in> set cypher_keywords
   \<and> is_strict_prefix ''ASC'' ''ASCENDING''
   \<and> \<not> comes_before (word_pattern ''ASCENDING'', Keyword) (word_pattern ''ASC'', Keyword)
          (word_list cypher_keywords Keyword)
   \<and> comes_before (word_pattern ''ASC'', Keyword) (word_pattern ''ASCENDING'', Keyword)
          (word_list cypher_keywords Keyword)"
  unfolding word_list_keywords
  by (simp add: cypher_keywords_def is_strict_prefix_def comes_before_def sorted_keywords_def
      word_pattern_def backslash_def)

text \<open>
  C3, as amended.  For every two literals of the keyword table, or of the operator word
  table, of which one is a strict prefix of the other: when the longer one goes on with a
  space after the prefix, its rule comes before the rule of the shorter one
  (\<^verbatim>\<open>CREATE UNIQUE\<close> before \<^verbatim>\<open>CREATE\<close>); otherwise the rule of the shorter one comes
  first (\<^verbatim>\<open>ASC\<close> before \<^verbatim>\<open>ASCENDING\<close>, \<^verbatim>\<open>END\<close> before \<^verbatim>\<open>ENDS WITH\<close>).  For every
  two operator symbols of which one is a strict prefix of the other, the rule of the
  longer one comes first (\<^verbatim>\<open><=\<close> before \<^verbatim>\<open><\<close>).
\<close>

theorem longer_first_after_space:
  "(\<forall>a \<in> set cypher_keywords. \<forall>b \<in> set cypher_keywords. is_strict_prefix a b \<longrightarrow>
      (if b ! length a = CHR '' ''
       then comes_before (word_pattern b, Keyword) (word_pattern a, Keyword) (word_list cypher_keywords Keyword)
       else comes_before (word_pattern a, Keyword) (word_pattern b, Keyword) (word_list cypher_keywords Keyword)))
   \<and> (\<forall>a \<in> set cypher_operator_words. \<forall>b \<in> set cypher_operator_words. is_strict_prefix a b \<longrightarrow>
      (if b ! length a = CHR '' ''
       then comes_before (word_pattern b, Operator) (word_pattern a, Operator) (word_list cypher_operator_words Operator)
       else comes_before (word_pattern a, Operator) (word_pattern b, Operator) (word_list cypher_operator_words Operator)))
   \<and> (\<forall>a \<in> set cypher_operator_symbols. \<forall>b \<in> set cypher_operator_symbols. is_strict_prefix a b \<longrightarrow>
      comes_before (symbol_pattern b, Operator) (symbol_pattern a, Operator)
        (symbol_list cypher_operator_symbols Operator))"
  unfolding ball_pairs prefix_pairs_keywords prefix_pairs_operator_words prefix_pairs_operator_symbols
    word_list_keywords word_list_operators symbol_list_operators
  by (simp add: comes_before_def sorted_keywords_def sorted_operator_words_def
      sorted_operator_symbols_def word_pattern_def symbol_pattern_def backslash_def)

theorem longer_first_after_space_witness:
  "''CREATE'' \<in> set cypher_keywords \<and> ''CREATE UNIQUE'' \<in> set cypher_keywords
   \<and> is_strict_prefix ''CREATE'' ''CREATE UNIQUE''
   \<and> comes_before (word_pattern ''CREATE UNIQUE'', Keyword) (word_pattern ''CREATE'', Keyword)
        (word_list cypher_keywords Keyword)
   \<and> ''END'' \<in> set cypher_operator_words \<and> ''ENDS WITH'' \<in> set cypher_operator_words
   \<and> is_strict_prefix ''END'' ''ENDS WITH''
   \<and> comes_before (word_pattern ''END'', Operator) (word_pattern ''ENDS WITH'', Operator)
        (word_list cypher_operator_words Operator)
   \<and> ''<'' \<in> set cypher_operator_symbols \<and> ''<='' \<in> set cypher_operator_symbols
   \<and> is_strict_prefix ''<'' ''<=''
   \<and> comes_before (symbol_pattern ''<='', Operator) (symbol_pattern ''<'', Operator)
        (symbol_list cypher_operator_symbols Operator)"
proof -
  have k: "''CREATE'' \<in> set cypher_keywords" "''CREATE UNIQUE'' \<in> set cypher_keywords"
    "is_strict_prefix ''CREATE'' ''CREATE UNIQUE''" "''CREATE UNIQUE'' ! length ''CREATE'' = CHR '' ''"
    by (simp_all add: cypher_keywords_def is_strict_prefix_def)
  have w: "''END'' \<in> set cypher_operator_words" "''ENDS WITH'' \<in> set cypher_operator_words"
    "is_strict_prefix ''END'' ''ENDS WITH''" "''ENDS WITH'' ! length ''END'' \<noteq> CHR '' ''"
    by (simp_all add: cypher_operator_words_def is_strict_prefix_def)
  have s: "''<'' \<in> set cypher_operator_symbols" "''<='' \<in> set cypher_operator_symbols"
    "is_strict_prefix ''<'' ''<=''"
    by (simp_all add: cypher_operator_symbols_def is_strict_prefix_def)
  note t = longer_first_after_space
  from t k have "comes_before (word_pattern ''CREATE UNIQUE'', Keyword) (word_pattern ''CREATE'', Keyword)
        (word_list cypher_keywords Keyword)" by (metis (full_types))
  moreover from t w have "comes_before (word_pattern ''END'', Operator) (word_pattern ''ENDS WITH'', Operator)
        (word_list cypher_operator_words Operator)" by (metis (full_types))
  moreover from t s have "comes_before (symbol_pattern ''<='', Operator) (symbol_pattern ''<'', Operator)
        (symbol_list cypher_operator_symbols Operator)" by blast
  ultimately show ?thesis using k w s by simp
qed

section \<open>Adjacent brackets\<close>

text \<open>
  C6.  The rounds of the tokenizer on \<^verbatim>\<open>(a)-[:REL]->(b)\<close>, each with the stack at its
  start, the tokens it yields and the stack at its end.  The opening parenthesis is
  yielded by the rule that pushes \<^verbatim>\<open>in-()\<close>, and \<^verbatim>\<open>a\<close> is matched with \<^verbatim>\<open>in-()\<close> on
  top.  The text \<^verbatim>\<open>)-[\<close> is one \<open>Punctuation\<close> token, and its round takes
  the stack from \<^verbatim>\<open>in-()\<close> on top to \<^verbatim>\<open>in-[]\<close> on top: the rule pops and then pushes, and
  no round in between has \<^verbatim>\<open>root\<close> on top.  In the same way \<^verbatim>\<open>]->(\<close> is one
  \<open>Punctuation\<close> token whose round takes the stack from \<^verbatim>\<open>in-[]\<close> back to \<^verbatim>\<open>in-()\<close>.
\<close>

theorem bracket_adjacency:
  "rounds ''(a)-[:REL]->(b)'' =
     Some [([Root], [(0, Punctuation, ''('')], [Root, In_Paren]),
           ([Root, In_Paren], [(1, Name_Variable, ''a'')], [Root, In_Paren]),
           ([Root, In_Paren], [(2, Punctuation, '')-['')], [Root, In_Bracket]),
           ([Root, In_Bracket], [(5, Punctuation, '':''), (6, Name_Label, ''REL'')], [Root, In_Bracket]),
           ([Root, In_Bracket], [(9, Punctuation, '']->('')], [Root, In_Paren]),
           ([Root, In_Paren], [(13, Name_Variable, ''b'')], [Root, In_Paren]),
           ([Root, In_Paren], [(14, Punctuation, '')'')], [Root])]
   \<and> (paren_to_bracket, Tok Punctuation, [Pop, Push In_Bracket]) \<in> set (tokens In_Paren)
   \<and> (bracket_to_paren, Tok Punctuation, [Pop, Push In_Paren]) \<in> set (tokens In_Bracket)
   \<and> apply_ops [Pop, Push In_Bracket] [Root, In_Paren] = [Root, In_Bracket]
   \<and> apply_ops [Pop, Push In_Paren] [Root, In_Bracket] = [Root, In_Paren]"
proof (intro conjI)
  show "rounds ''(a)-[:REL]->(b)'' =
     Some [([Root], [(0, Punctuation, ''('')], [Root, In_Paren]),
           ([Root, In_Paren], [(1, Name_Variable, ''a'')], [Root, In_Paren]),
           ([Root, In_Paren], [(2, Punctuation, '')-['')], [Root, In_Bracket]),
           ([Root, In_Bracket], [(5, Punctuation, '':''), (6, Name_Label, ''REL'')], [Root, In_Bracket]),
           ([Root, In_Bracket], [(9, Punctuation, '']->('')], [Root, In_Paren]),
           ([Root, In_Paren], [(13, Name_Variable, ''b'')], [Root, In_Paren]),
           ([Root, In_Paren], [(14, Punctuation, '')'')], [Root])]"
    apply (simp only: lex_eval cong: lex_cong)
    apply simp
    done
qed simp_all

section \<open>A line with a line comment\<close>

text \<open>
  C10.  Let the offset be at the start of a line (the start of the text, or just after a
  newline), let the line contain \<^verbatim>\<open>//\<close> and end with a newline, and let no rule that stands
  before the line comment rule in the list of the state on top of the stack match at the
  offset.  Then the step of the tokenizer yields the whole line, the text before
  \<^verbatim>\<open>//\<close> and the newline included, as one \<open>Comment.Single\<close> token, moves the offset past the
  newline and leaves the stack as it is.  The rules before the line comment rule are the
  two string rules in \<^verbatim>\<open>root\<close>, \<^verbatim>\<open>in-()\<close>, \<^verbatim>\<open>in-[]\<close> and \<^verbatim>\<open>in-{}\<close>; the state
  \<^verbatim>\<open>multiline-comments\<close> has no line comment rule, and one of its rules always matches.  The
  text \<^verbatim>\<open>RETURN 1 // note\<close> followed by a newline is one \<open>Comment.Single\<close> token, so is the
  same line with a semicolon after \<^verbatim>\<open>1\<close>, and the splitter does not split at that semicolon.
\<close>

theorem line_comment_takes_line:
  "(\<forall>before l1 l2 more statestack.
      (before = [] \<or> last before = newline) \<and> newline \<notin> set (l1 @ ''//'' @ l2) \<and>
      (\<forall>rl \<in> set (takeWhile (\<lambda>rl. rl \<noteq> comment_rule) (tokens (last statestack))).
          rexmatch (fst rl) (before @ l1 @ ''//'' @ l2 @ newline # more) (length before) = None)
      \<longrightarrow> lex_step (before @ l1 @ ''//'' @ l2 @ newline # more) (length before) statestack
            = Emitted [(length before, Comment_Single, l1 @ ''//'' @ l2 @ [newline])]
                (length before + length (l1 @ ''//'' @ l2 @ [newline])) statestack)
   \<and> (\<forall>s. takeWhile (\<lambda>rl. rl \<noteq> comment_rule) (tokens s)
            = (if s = Multiline_Comments then multiline_comments else strings))
   \<and> get_tokens_unprocessed (''RETURN 1 // note'' @ [newline])
       = Some [(0, Comment_Single, ''RETURN 1 // note'' @ [newline])]
   \<and> get_tokens_unprocessed (''RETURN 1; // note'' @ [newline])
       = Some [(0, Comment_Single, ''RETURN 1; // note'' @ [newline])]
   \<and> get_statements (''RETURN 1; // note'' @ [newline] @ ''RETURN 2'')
       = Some [''RETURN 1; // note'' @ [newline] @ ''RETURN 2'']"
proof (intro conjI allI impI)
  fix before l1 l2 more :: string and statestack
  assume "(before = [] \<or> last before = newline) \<and> newline \<notin> set (l1 @ ''//'' @ l2) \<and>
      (\<forall>rl \<in> set (takeWhile (\<lambda>rl. rl \<noteq> comment_rule) (tokens (last statestack))).
          rexmatch (fst rl) (before @ l1 @ ''//'' @ l2 @ newline # more) (length before) = None)"
  then show "lex_step (before @ l1 @ ''//'' @ l2 @ newline # more) (length before) statestack
            = Emitted [(length before, Comment_Single, l1 @ ''//'' @ l2 @ [newline])]
                (length before + length (l1 @ ''//'' @ l2 @ [newline])) statestack"
    using line_comment_step by blast
next
  fix s show "takeWhile (\<lambda>rl. rl \<noteq> comment_rule) (tokens s)
            = (if s = Multiline_Comments then multiline_comments else strings)"
    by (rule earlier_rules)
next
  show "get_tokens_unprocessed (''RETURN 1 // note'' @ [newline])
       = Some [(0, Comment_Single, ''RETURN 1 // note'' @ [newline])]"
    by (simp only: lex_eval cong: lex_cong)
next
  show "get_tokens_unprocessed (''RETURN 1; // note'' @ [newline])
       = Some [(0, Comment_Single, ''RETURN 1; // note'' @ [newline])]"
    by (simp only: lex_eval cong: lex_cong)
next
  show "get_statements (''RETURN 1; // note'' @ [newline] @ ''RETURN 2'')
       = Some [''RETURN 1; // note'' @ [newline] @ ''RETURN 2'']"
    by (simp only: lex_eval cong: lex_cong)
qed

theorem line_comment_takes_line_witness:
  "lex_step (''x = 1'' @ [newline] @ ''RETURN 1 // note'' @ [newline] @ ''RETURN 2'') 6 [Root]
     = Emitted [(6, Comment_Single, ''RETURN 1 // note'' @ [newline])] 23 [Root]"
proof -
  have a: "''x = 1'' @ [newline] = [] \<or> last (''x = 1'' @ [newline]) = newline" by simp
  have b: "newline \<notin> set (''RETURN 1 '' @ ''//'' @ '' note'')" by (simp add: newline_def)
  have c: "\<forall>rl \<in> set (takeWhile (\<lambda>rl. rl \<noteq> comment_rule) (tokens (last [Root]))).
      rexmatch (fst rl) ((''x = 1'' @ [newline]) @ ''RETURN 1 '' @ ''//'' @ '' note'' @ newline # ''RETURN 2'')
        (length (''x = 1'' @ [newline])) = None"
    unfolding earlier_rules
    by (simp add: strings_def rexmatch_def prev_char_def lower_Char squote_def dquote_def newline_def)
  from line_comment_takes_line a b c
  have "lex_step ((''x = 1'' @ [newline]) @ ''RETURN 1 '' @ ''//'' @ '' note'' @ newline # ''RETURN 2'')
          (length (''x = 1'' @ [newline])) [Root]
        = Emitted [(length (''x = 1'' @ [newline]), Comment_Single, ''RETURN 1 '' @ ''//'' @ '' note'' @ [newline])]
            (length (''x = 1'' @ [newline]) + length (''RETURN 1 '' @ ''//'' @ '' note'' @ [newline])) [Root]"
    by blast
  then show ?thesis by (simp add: eval_nat_numeral)
qed

section \<open>The keyword of two words\<close>

text \<open>
  C4.  The tokens of \<^verbatim>\<open>CREATE UNIQUE (n)\<close> begin with the one \<open>Keyword\<close> token
  \<^verbatim>\<open>CREATE UNIQUE\<close>.  The same holds for every non-empty run of whitespace characters
  between the two words and every continuation that does not go on with a word
  character, as long as the line comment rule, which stands before the keyword rules,
  does not match at the start of the text: the first token is a \<open>Keyword\<close> token with the
  two words and the whitespace between them, and the tokens after it spell the
  continuation.  The line comment rule does not match when the continuation holds no
  slash.
\<close>

theorem create_unique_one_keyword:
  "get_tokens_unprocessed ''CREATE UNIQUE (n)''
     = Some [(0, Keyword, ''CREATE UNIQUE''), (13, Whitespace, '' ''), (14, Punctuation, ''(''),
             (15, Name_Variable, ''n''), (16, Punctuation, '')'')]
   \<and> (\<forall>ws more.
        ws \<noteq> [] \<and> (\<forall>c \<in> set ws. is_space c) \<and> (more = [] \<or> \<not> is_word (hd more))
        \<and> rexmatch line_comment (''CREATE'' @ ws @ ''UNIQUE'' @ more) 0 = None
        \<longrightarrow> (\<exists>rest. get_tokens_unprocessed (''CREATE'' @ ws @ ''UNIQUE'' @ more)
                      = Some ((0, Keyword, ''CREATE'' @ ws @ ''UNIQUE'') # rest)
                    \<and> concat (map tok_text rest) = more))
   \<and> (\<forall>ws more. (\<forall>c \<in> set ws. is_space c) \<and> CHR ''/'' \<notin> set more
        \<longrightarrow> rexmatch line_comment (''CREATE'' @ ws @ ''UNIQUE'' @ more) 0 = None)"
proof (intro conjI allI impI)
  show "get_tokens_unprocessed ''CREATE UNIQUE (n)''
     = Some [(0, Keyword, ''CREATE UNIQUE''), (13, Whitespace, '' ''), (14, Punctuation, ''(''),
             (15, Name_Variable, ''n''), (16, Punctuation, '')'')]"
    by (simp only: lex_eval cong: lex_cong) simp
next
  fix ws more :: string
  assume "ws \<noteq> [] \<and> (\<forall>c \<in> set ws. is_space c) \<and> (more = [] \<or> \<not> is_word (hd more))
        \<and> rexmatch line_comment (''CREATE'' @ ws @ ''UNIQUE'' @ more) 0 = None"
  then have "ws \<noteq> []" "\<forall>c \<in> set ws. is_space c" "more = [] \<or> \<not> is_word (hd more)"
    "rexmatch line_comment (''CREATE'' @ ws @ ''UNIQUE'' @ more) 0 = None" by simp_all
  then show "\<exists>rest. get_tokens_unprocessed (''CREATE'' @ ws @ ''UNIQUE'' @ more)
                      = Some ((0, Keyword, ''CREATE'' @ ws @ ''UNIQUE'') # rest)
                    \<and> concat (map tok_text rest) = more"
    by (rule create_unique_tokens)
next
  fix ws more :: string
  assume a: "(\<forall>c \<in> set ws. is_space c) \<and> CHR ''/'' \<notin> set more"
  have "\<not> is_space CHR ''/''" by (simp add: is_space_def)
  then have "CHR ''/'' \<notin> set ws" using a by blast
  then have "CHR ''/'' \<notin> set (''CREATE'' @ ws @ ''UNIQUE'' @ more)" using a by simp
  then show "rexmatch line_comment (''CREATE'' @ ws @ ''UNIQUE'' @ more) 0 = None"
    by (rule no_slash_no_match)
qed

theorem create_unique_one_keyword_witness:
  "\<exists>rest. get_tokens_unprocessed (''CREATE'' @ [CHR '' '', CHR 0x09, newline, CHR '' ''] @ ''UNIQUE'' @ '' (n)'')
            = Some ((0, Keyword, ''CREATE'' @ [CHR '' '', CHR 0x09, newline, CHR '' ''] @ ''UNIQUE'') # rest)
          \<and> concat (map tok_text rest) = '' (n)''"
proof -
  have a: "[CHR '' '', CHR 0x09, newline, CHR '' ''] \<noteq> []" by simp
  have b: "\<forall>c \<in> set [CHR '' '', CHR 0x09, newline, CHR '' '']. is_space c"
    by (simp add: is_space_def newline_def)
  have c: "'' (n)'' = [] \<or> \<not> is_word (hd '' (n)'')" by (simp add: is_word_def char_le_bits)
  have d: "CHR ''/'' \<notin> set '' (n)''" by simp
  have e: "rexmatch line_comment (''CREATE'' @ [CHR '' '', CHR 0x09, newline, CHR '' ''] @ ''UNIQUE'' @ '' (n)'') 0 = None"
    using create_unique_one_keyword[THEN conjunct2, THEN conjunct2, rule_format,
        of "[CHR '' '', CHR 0x09, newline, CHR '' '']" "'' (n)''", OF conjI, OF b d] .
  show ?thesis
    using create_unique_one_keyword[THEN conjunct2, THEN conjunct1, rule_format,
        of "[CHR '' '', CHR 0x09, newline, CHR '' '']" "'' (n)''", OF conjI, OF a conjI, OF b conjI, OF c e] .
qed

end
